theory Spec2Isabelle
  imports Complex_Main
begin

section \<open>Conventions of the embedding\<close>

text \<open>
  The C++ sources \<^verbatim>\<open>Ball.hpp\<close> (classes Maze and Ball) and
  \<^verbatim>\<open>Smoothing/smoothing.cpp\<close> (PoseSmoother) are embedded as HOL functions.

  \<^item> In the first embedding of the classes, \<^verbatim>\<open>float\<close> and \<^verbatim>\<open>double\<close>
    values are modelled as \<^typ>\<open>real\<close>: arithmetic is exact, there is no rounding, no
    infinity and no NaN. The literals \<^verbatim>\<open>0.85f\<close>, \<^verbatim>\<open>0.4f\<close>,
    \<^verbatim>\<open>9.81f\<close>, \<^verbatim>\<open>0.03f\<close> are the decimal fractions. The statements about
    the position of the ball are made on a second embedding of the integration and of the
    collisions, whose floating-point operations are parameters.
  \<^item> \<^verbatim>\<open>int\<close> is modelled as \<^typ>\<open>int\<close>, with the 32 bits written out where
    the statements reach values that overflow (the size of the grid, the edges of a cell); the
    conversion \<^verbatim>\<open>(int)x\<close> truncates toward zero.
  \<^item> Reading or writing a \<^verbatim>\<open>std::vector\<close> outside its range is undefined in C++;
    the model returns \<^term>\<open>None\<close> there.
  \<^item> Memory is unbounded: an allocation that is asked for a size that can be represented
    does not fail.
  \<^item> Mutation is explicit state passing: a method takes the object and returns the new one.
  \<^item> Functions of OpenCV and GLM (\<^verbatim>\<open>cv::Rodrigues\<close>, \<^verbatim>\<open>glm::quat_cast\<close>,
    \<^verbatim>\<open>glm::slerp\<close>, \<^verbatim>\<open>glm::mat3_cast\<close>), \<^verbatim>\<open>std::srand\<close>,
    \<^verbatim>\<open>std::rand\<close> and \<^verbatim>\<open>std::time\<close> are not part of the repository: they are
    parameters of the model.
\<close>

type_synonym vec2 = "real \<times> real"
type_synonym vec3 = "real \<times> real \<times> real"
type_synonym mat3 = "vec3 \<times> vec3 \<times> vec3"
type_synonym quat = "real \<times> real \<times> real \<times> real"

text \<open>A 3x3 matrix is the triple of its rows; a quaternion is (w, x, y, z).\<close>

definition eye3 :: mat3 where
  "eye3 = ((1, 0, 0), (0, 1, 0), (0, 0, 1))"

fun transpose3 :: "mat3 \<Rightarrow> mat3" where
  "transpose3 ((a00, a01, a02), (a10, a11, a12), (a20, a21, a22)) =
     ((a00, a10, a20), (a01, a11, a21), (a02, a12, a22))"

fun mat_vec :: "mat3 \<Rightarrow> vec3 \<Rightarrow> vec3" where
  "mat_vec ((a00, a01, a02), (a10, a11, a12), (a20, a21, a22)) (x, y, z) =
     (a00 * x + a01 * y + a02 * z,
      a10 * x + a11 * y + a12 * z,
      a20 * x + a21 * y + a22 * z)"

fun mat_mul :: "mat3 \<Rightarrow> mat3 \<Rightarrow> mat3" where
  "mat_mul ((a00, a01, a02), (a10, a11, a12), (a20, a21, a22))
           ((b00, b01, b02), (b10, b11, b12), (b20, b21, b22)) =
     ((a00 * b00 + a01 * b10 + a02 * b20,
       a00 * b01 + a01 * b11 + a02 * b21,
       a00 * b02 + a01 * b12 + a02 * b22),
      (a10 * b00 + a11 * b10 + a12 * b20,
       a10 * b01 + a11 * b11 + a12 * b21,
       a10 * b02 + a11 * b12 + a12 * b22),
      (a20 * b00 + a21 * b10 + a22 * b20,
       a20 * b01 + a21 * b11 + a22 * b21,
       a20 * b02 + a21 * b12 + a22 * b22))"

fun scale3 :: "real \<Rightarrow> vec3 \<Rightarrow> vec3" where
  "scale3 k (x, y, z) = (k * x, k * y, k * z)"

fun add3 :: "vec3 \<Rightarrow> vec3 \<Rightarrow> vec3" where
  "add3 (x, y, z) (x', y', z') = (x + x', y + y', z + z')"

fun qdot :: "quat \<Rightarrow> quat \<Rightarrow> real" where
  "qdot (qw, qx, qy, qz) (pw, px, py, pz) = qw * pw + qx * px + qy * py + qz * pz"

fun qneg :: "quat \<Rightarrow> quat" where
  "qneg (qw, qx, qy, qz) = (- qw, - qx, - qy, - qz)"

text \<open>The library functions the sources call, as parameters.\<close>

record extern =
  Rodrigues :: "vec3 \<Rightarrow> mat3"
  RodriguesInv :: "mat3 \<Rightarrow> vec3"
  quat_cast :: "mat3 \<Rightarrow> quat"
  mat3_cast :: "quat \<Rightarrow> mat3"
  slerp :: "quat \<Rightarrow> quat \<Rightarrow> real \<Rightarrow> quat"

section \<open>Ball.hpp: class Maze\<close>

record cell =
  wN :: bool
  wS :: bool
  wE :: bool
  wW :: bool
  visited :: bool

text \<open>
  The sizes of a cell are \<^verbatim>\<open>float\<close> values. The record takes their type as a
  parameter; the type \<^verbatim>\<open>maze\<close> is the maze over \<^typ>\<open>real\<close>.
\<close>

record 'f gmaze =
  w :: int
  h :: int
  cellW :: 'f
  cellH :: 'f
  wallThick :: 'f
  grid :: "cell list"

type_synonym maze = "real gmaze"

definition fresh_cell :: cell where
  "fresh_cell = \<lparr>wN = True, wS = True, wE = True, wW = True, visited = False\<rparr>"

text \<open>
  An \<^verbatim>\<open>int\<close> has 32 bits. \<^term>\<open>wrap32\<close> is the value of an arithmetic result
  in that type: it wraps around.
\<close>

definition wrap32 :: "int \<Rightarrow> int" where
  "wrap32 x = (x + 2 ^ 31) mod 2 ^ 32 - 2 ^ 31"

text \<open>
  The constructor. The product \<^verbatim>\<open>w * h\<close> of \<^verbatim>\<open>grid.resize(w * h)\<close> is a
  product of two \<^verbatim>\<open>int\<close>: it has 32 bits. A negative product asks for a huge size and
  throws: \<^term>\<open>None\<close>.
  With a width or a height of zero the cell size is a quotient by zero (an infinity or a NaN
  in C++, zero in HOL); the statements below take sizes of at least 1 and cell sizes that are
  not zero.
\<close>

definition new_Maze :: "int \<Rightarrow> int \<Rightarrow> real \<Rightarrow> real \<Rightarrow> real \<Rightarrow> maze option" where
  "new_Maze width height sheetWidth sheetHeight wallThickness =
     (if wrap32 (width * height) < 0 then None
      else Some \<lparr>w = width, h = height,
                 cellW = sheetWidth / real_of_int width,
                 cellH = sheetHeight / real_of_int height,
                 wallThick = wallThickness,
                 grid = replicate (nat (wrap32 (width * height))) fresh_cell\<rparr>)"

text \<open>
  \<^verbatim>\<open>Cell& at(int x, int y)\<close>: the coordinates are clamped, then the vector is indexed
  at \<^verbatim>\<open>y * w + x\<close>. \<^term>\<open>at_index\<close> is the index of the cell the reference points
  to, \<^term>\<open>maze_at\<close> reads through it and \<^term>\<open>set_cell\<close> writes through it.
\<close>

definition at_index :: "'f gmaze \<Rightarrow> int \<Rightarrow> int \<Rightarrow> nat option" where
  "at_index m x y =
     (let x1 = (if x < 0 then 0 else x);
          x2 = (if x1 \<ge> w m then w m - 1 else x1);
          y1 = (if y < 0 then 0 else y);
          y2 = (if y1 \<ge> h m then h m - 1 else y1);
          i = y2 * w m + x2
      in if 0 \<le> i \<and> i < int (length (grid m)) then Some (nat i) else None)"

definition maze_at :: "'f gmaze \<Rightarrow> int \<Rightarrow> int \<Rightarrow> cell option" where
  "maze_at m x y = map_option (\<lambda>i. grid m ! i) (at_index m x y)"

definition set_cell :: "maze \<Rightarrow> int \<Rightarrow> int \<Rightarrow> (cell \<Rightarrow> cell) \<Rightarrow> maze option" where
  "set_cell m x y f =
     (case at_index m x y of
        None \<Rightarrow> None
      | Some i \<Rightarrow> Some (m\<lparr>grid := (grid m)[i := f (grid m ! i)]\<rparr>))"

subsection \<open>Maze::generate\<close>

definition dirs :: "(int \<times> int) list" where
  "dirs = [(0, 1), (1, 0), (0, -1), (-1, 0)]"

text \<open>The inner \<^verbatim>\<open>for\<close> loop: the unvisited neighbours inside the grid, in the order of \<^term>\<open>dirs\<close>.\<close>

fun neighbors :: "maze \<Rightarrow> int \<Rightarrow> int \<Rightarrow> (int \<times> int) list \<Rightarrow> (int \<times> int) list option" where
  "neighbors m cx cy [] = Some []"
| "neighbors m cx cy ((dx, dy) # ds) =
     (let nx = cx + dx; ny = cy + dy in
      if nx \<ge> 0 \<and> nx < w m \<and> ny \<ge> 0 \<and> ny < h m then
        (case maze_at m nx ny of
           None \<Rightarrow> None
         | Some c \<Rightarrow>
             (case neighbors m cx cy ds of
                None \<Rightarrow> None
              | Some ns \<Rightarrow> Some (if \<not> visited c then (nx, ny) # ns else ns)))
      else neighbors m cx cy ds)"

text \<open>The wall between the current cell and the chosen neighbour is cleared on both sides,
  then the neighbour is marked.\<close>

definition carve :: "maze \<Rightarrow> int \<times> int \<Rightarrow> int \<times> int \<Rightarrow> maze option" where
  "carve m c n =
     (case (c, n) of ((cx, cy), (nx, ny)) \<Rightarrow>
        (case (if nx > cx then
                 Option.bind (set_cell m cx cy (\<lambda>c. c\<lparr>wE := False\<rparr>))
                   (\<lambda>m1. set_cell m1 nx ny (\<lambda>c. c\<lparr>wW := False\<rparr>))
               else if nx < cx then
                 Option.bind (set_cell m cx cy (\<lambda>c. c\<lparr>wW := False\<rparr>))
                   (\<lambda>m1. set_cell m1 nx ny (\<lambda>c. c\<lparr>wE := False\<rparr>))
               else if ny > cy then
                 Option.bind (set_cell m cx cy (\<lambda>c. c\<lparr>wS := False\<rparr>))
                   (\<lambda>m1. set_cell m1 nx ny (\<lambda>c. c\<lparr>wN := False\<rparr>))
               else if ny < cy then
                 Option.bind (set_cell m cx cy (\<lambda>c. c\<lparr>wN := False\<rparr>))
                   (\<lambda>m1. set_cell m1 nx ny (\<lambda>c. c\<lparr>wS := False\<rparr>))
               else Some m) of
           None \<Rightarrow> None
         | Some m2 \<Rightarrow> set_cell m2 nx ny (\<lambda>c. c\<lparr>visited := True\<rparr>)))"

text \<open>
  \<^verbatim>\<open>std::srand\<close> and \<^verbatim>\<open>std::rand\<close> are functions of the C library, with a
  state of their own, of a type \<^typ>\<open>'s\<close>: \<^term>\<open>srand L seed\<close> is the state after
  \<^verbatim>\<open>std::srand(seed)\<close>, and \<^term>\<open>rand L s\<close> is the value of a call of
  \<^verbatim>\<open>std::rand()\<close> in the state \<^term>\<open>s\<close> with the state after it.
\<close>

record 's rng_lib =
  srand :: "nat \<Rightarrow> 's"
  rand :: "'s \<Rightarrow> nat \<times> 's"

text \<open>
  The \<^verbatim>\<open>while (!stack.empty())\<close> loop. The head of the list is the top of the stack;
  \<^term>\<open>s\<close> is the state of the random generator. The result is the maze with the state
  of the generator after the loop.
\<close>

partial_function (option) generate_loop ::
  "'s rng_lib \<Rightarrow> 's \<Rightarrow> maze \<Rightarrow> (int \<times> int) list \<Rightarrow> (maze \<times> 's) option" where
  "generate_loop L s m stack =
     (case stack of
        [] \<Rightarrow> Some (m, s)
      | (cx, cy) # rest \<Rightarrow>
          (case neighbors m cx cy dirs of
             None \<Rightarrow> None
           | Some ns \<Rightarrow>
               if ns \<noteq> [] then
                 (let r = rand L s;
                      next = ns ! (fst r mod length ns) in
                  case carve m (cx, cy) next of
                    None \<Rightarrow> None
                  | Some m' \<Rightarrow> generate_loop L (snd r) m' (next # stack))
               else generate_loop L s m rest))"

text \<open>
  \<^verbatim>\<open>generate()\<close> takes no argument: it seeds the generator with
  \<^verbatim>\<open>static_cast<unsigned int>(std::time(0))\<close>. \<^term>\<open>now\<close> is the value of the
  clock and \<^term>\<open>s0\<close> the state of the generator when \<^verbatim>\<open>generate\<close> is called,
  which \<^verbatim>\<open>std::srand\<close> replaces.
\<close>

definition generate :: "'s rng_lib \<Rightarrow> nat \<Rightarrow> 's \<Rightarrow> maze \<Rightarrow> (maze \<times> 's) option" where
  "generate L now s0 m =
     (let s = srand L (now mod 2 ^ 32);
          startX = 0; startY = 0 in
      case set_cell m startX startY (\<lambda>c. c\<lparr>visited := True\<rparr>) of
        None \<Rightarrow> None
      | Some m1 \<Rightarrow> generate_loop L s m1 [(startX, startY)])"

section \<open>Ball.hpp: class Ball\<close>

text \<open>
  The record takes the type of the \<^verbatim>\<open>float\<close> values and the type of the matrix
  \<^verbatim>\<open>R0\<close> as parameters; the type \<^verbatim>\<open>ball\<close> is the ball over \<^typ>\<open>real\<close>.
\<close>

record ('f, 'm) gball =
  pos :: "'f \<times> 'f"
  vel :: "'f \<times> 'f"
  radius :: 'f
  hasFlatRef :: bool
  R0 :: 'm
  g :: 'f
  gain :: 'f
  deadzone :: 'f

type_synonym ball = "(real, mat3) gball"

definition new_Ball :: "real \<Rightarrow> ball" where
  "new_Ball r = \<lparr>pos = (0, 0), vel = (0, 0), radius = r, hasFlatRef = False,
                 R0 = eye3, g = 981 / 100, gain = 1, deadzone = 3 / 100\<rparr>"

definition reset :: "maze \<Rightarrow> ball \<Rightarrow> ball" where
  "reset m b = b\<lparr>pos := (cellW m * (1 / 2), cellH m * (1 / 2)), vel := (0, 0)\<rparr>"

definition setFlatReference :: "extern \<Rightarrow> vec3 \<Rightarrow> ball \<Rightarrow> ball" where
  "setFlatReference L rvec b = b\<lparr>R0 := Rodrigues L rvec, hasFlatRef := True\<rparr>"

definition applyDeadzone :: "real \<Rightarrow> real \<Rightarrow> real" where
  "applyDeadzone v dz =
     (if \<bar>v\<bar> < dz then 0
      else (let s = (if v > 0 then 1 else - 1);
                a = (\<bar>v\<bar> - dz) / (1 - dz)
            in s * a))"

text \<open>Steps 3 to 5 of \<^verbatim>\<open>update\<close>: gravity in the frame of the tilted board.\<close>

definition gravity :: "mat3 \<Rightarrow> mat3 \<Rightarrow> vec3" where
  "gravity Rref R =
     (let Rrel = mat_mul (transpose3 Rref) R;
          g0 = (0, 0, - 1)
      in mat_vec (transpose3 Rrel) g0)"

text \<open>Steps 6 and 7: the planar acceleration \<^verbatim>\<open>acc\<close>.\<close>

definition acceleration :: "ball \<Rightarrow> mat3 \<Rightarrow> vec2" where
  "acceleration b R =
     (case gravity (R0 b) R of (gcx, gcy, gcz) \<Rightarrow>
        (let ax = applyDeadzone gcx (deadzone b);
             ay = applyDeadzone gcy (deadzone b)
         in (- ax * g b * gain b, - ay * g b * gain b)))"

text \<open>Step 8: the new velocity and the tentative position \<^verbatim>\<open>nextPos\<close>.\<close>

definition integrate :: "real \<Rightarrow> vec2 \<Rightarrow> ball \<Rightarrow> vec2 \<times> vec2" where
  "integrate dt acc b =
     (let v = ((fst (vel b) + fst acc * dt) * (85 / 100),
               (snd (vel b) + snd acc * dt) * (85 / 100));
          nextPos = (fst (pos b) + fst v * dt, snd (pos b) + snd v * dt)
      in (v, nextPos))"

definition to_int :: "real \<Rightarrow> int" where
  "to_int x = (if 0 \<le> x then \<lfloor>x\<rfloor> else \<lceil>x\<rceil>)"

text \<open>
  The wall test of one axis (the two \<^verbatim>\<open>if ... else if\<close> statements of
  \<^verbatim>\<open>update\<close>, written once for x with the walls W, E and once for y with
  N, S): the position and the velocity component after it.
\<close>

definition wall_hit :: "bool \<Rightarrow> bool \<Rightarrow> real \<Rightarrow> real \<Rightarrow> real \<Rightarrow> real \<Rightarrow> real \<Rightarrow> real \<times> real" where
  "wall_hit wLow wHigh cellLow cellHigh r p v =
     (let bounce = 4 / 10 in
      if wLow \<and> p - r < cellLow then (cellLow + r, - v * bounce)
      else if wHigh \<and> p + r > cellHigh then (cellHigh - r, - v * bounce)
      else (p, v))"

text \<open>The final clamp of one axis: first against \<^verbatim>\<open>r\<close>, then against the maximum.\<close>

definition clamp_bounds :: "real \<Rightarrow> real \<Rightarrow> real \<Rightarrow> real" where
  "clamp_bounds r maxv p =
     (let p1 = (if p < r then r else p)
      in if p1 > maxv then maxv else p1)"

text \<open>
  The collisions and the final clamp. The cell is the one of the position before the step.
  With a cell size of zero the quotient is not a finite number and its conversion to
  \<^verbatim>\<open>int\<close> is undefined: \<^term>\<open>None\<close>.
\<close>

definition collide :: "maze \<Rightarrow> ball \<Rightarrow> vec2 \<Rightarrow> vec2 \<Rightarrow> ball option" where
  "collide mz b v nextPos =
     (if cellW mz = 0 \<or> cellH mz = 0 then None
      else
       (let gx = to_int (fst (pos b) / cellW mz);
            gy = to_int (snd (pos b) / cellH mz) in
        case maze_at mz gx gy of
          None \<Rightarrow> None
        | Some c \<Rightarrow>
           (let cellLeft = real_of_int gx * cellW mz;
                cellRight = real_of_int (gx + 1) * cellW mz;
                cellTop = real_of_int gy * cellH mz;
                cellBottom = real_of_int (gy + 1) * cellH mz;
                r = radius b;
                (nx1, vx1) = wall_hit (wW c) (wE c) cellLeft cellRight r (fst nextPos) (fst v);
                (ny1, vy1) = wall_hit (wN c) (wS c) cellTop cellBottom r (snd nextPos) (snd v);
                maxW = real_of_int (w mz) * cellW mz - r;
                maxH = real_of_int (h mz) * cellH mz - r
            in Some (b\<lparr>pos := (clamp_bounds r maxW nx1, clamp_bounds r maxH ny1),
                        vel := (vx1, vy1)\<rparr>))))"

definition update :: "extern \<Rightarrow> real \<Rightarrow> vec3 \<Rightarrow> maze \<Rightarrow> ball \<Rightarrow> ball option" where
  "update L dt rvec mz b =
     (let R = Rodrigues L rvec;
          b1 = (if \<not> hasFlatRef b then b\<lparr>R0 := R, hasFlatRef := True\<rparr> else b);
          acc = acceleration b1 R;
          (v, nextPos) = integrate dt acc b1
      in collide mz b1 v nextPos)"

text \<open>The calls a client can make on a ball, and a sequence of them.\<close>

datatype ball_op = Update real vec3 maze | SetFlatReference vec3 | Reset maze

fun apply_op :: "extern \<Rightarrow> ball_op \<Rightarrow> ball \<Rightarrow> ball option" where
  "apply_op L (Update dt rvec mz) b = update L dt rvec mz b"
| "apply_op L (SetFlatReference rvec) b = Some (setFlatReference L rvec b)"
| "apply_op L (Reset mz) b = Some (reset mz b)"

fun run_ops :: "extern \<Rightarrow> ball_op list \<Rightarrow> ball \<Rightarrow> ball option" where
  "run_ops L [] b = Some b"
| "run_ops L (x # xs) b =
     (case apply_op L x b of
        None \<Rightarrow> None
      | Some b' \<Rightarrow> run_ops L xs b')"

subsection \<open>main.cpp: the calls on the ball in the frame loop\<close>

text \<open>
  One pass of the loop, as far as the ball goes: after a successful detection
  (\<^verbatim>\<open>poseOk\<close>) without a latched reference the reference is set; when a pose is
  known (\<^verbatim>\<open>hasPose\<close>, here \<^term>\<open>has_pose\<close>), the key R sets the reference again
  and zeroes the velocity, and \<^verbatim>\<open>update\<close> is called.
\<close>

definition frame_ball ::
  "extern \<Rightarrow> bool \<Rightarrow> bool \<Rightarrow> bool \<Rightarrow> real \<Rightarrow> vec3 \<Rightarrow> maze \<Rightarrow> ball \<Rightarrow> ball option" where
  "frame_ball L poseOk has_pose key_R dt rvec mz b =
     (let b1 = (if poseOk \<and> \<not> hasFlatRef b then setFlatReference L rvec b else b) in
      if has_pose then
        (let b2 = (if key_R then (setFlatReference L rvec b1)\<lparr>vel := (0, 0)\<rparr> else b1)
         in update L dt rvec mz b2)
      else Some b1)"

section \<open>Ball.hpp: the second half of Ball::update, in floating point\<close>

text \<open>
  The embedding above computes in the real numbers. A \<^verbatim>\<open>float\<close> is not a real
  number: a result is rounded, it is an infinity when it is too large, it is NaN when it has
  no value, and a comparison with NaN is false. The second half of \<^verbatim>\<open>update\<close>, the
  integration of step 8 and the collisions, is embedded here a second time, over an arbitrary
  floating-point arithmetic: the operations on \<^verbatim>\<open>float\<close> are the fields of a record
  and are parameters, as the library functions are. What is proved of this embedding holds for
  every arithmetic, so for the one of the machine. The acceleration that steps 1 to 7 compute
  is an argument.

\<close>

record 'f fp =
  fadd :: "'f \<Rightarrow> 'f \<Rightarrow> 'f"
  fsub :: "'f \<Rightarrow> 'f \<Rightarrow> 'f"
  fmul :: "'f \<Rightarrow> 'f \<Rightarrow> 'f"
  fdiv :: "'f \<Rightarrow> 'f \<Rightarrow> 'f"
  fneg :: "'f \<Rightarrow> 'f"
  flt :: "'f \<Rightarrow> 'f \<Rightarrow> bool"
  fint :: "int \<Rightarrow> 'f"
  ftrunc :: "'f \<Rightarrow> int option"
  flit :: "real \<Rightarrow> 'f"
  fle :: "'f \<Rightarrow> 'f \<Rightarrow> bool"
  not_nan :: "'f \<Rightarrow> bool"

text \<open>
  \<^item> \<^term>\<open>flt A x y\<close> is \<^verbatim>\<open>x < y\<close>, and \<^verbatim>\<open>y > x\<close>;
  \<^item> \<^term>\<open>fint A n\<close> is the conversion of the \<^verbatim>\<open>int\<close> \<^term>\<open>n\<close>;
  \<^item> \<^term>\<open>ftrunc A x\<close> is the conversion \<^verbatim>\<open>(int)x\<close>, and \<^term>\<open>None\<close> where
    it is undefined (NaN, an infinity, a value outside the range of \<^verbatim>\<open>int\<close>);
  \<^item> \<^term>\<open>flit A x\<close> is the \<^verbatim>\<open>float\<close> of the decimal literal \<^term>\<open>x\<close>;
  \<^item> \<^term>\<open>fle A x y\<close> is \<^verbatim>\<open>x <= y\<close> and \<^term>\<open>not_nan A x\<close> says that
    \<^term>\<open>x\<close> is not NaN: the code does not use them, the statements do.
\<close>

text \<open>
  Step 8: \<^verbatim>\<open>vel += acc * dt; vel *= 0.85f; nextPos = pos + vel * dt\<close>, on both
  components: the new velocity and the tentative position.
\<close>

definition fintegrate ::
  "'f fp \<Rightarrow> 'f \<Rightarrow> 'f \<times> 'f \<Rightarrow> ('f, 'm) gball \<Rightarrow> ('f \<times> 'f) \<times> ('f \<times> 'f)" where
  "fintegrate A dt acc b =
     (let v1 = (fadd A (fst (vel b)) (fmul A (fst acc) dt),
                fadd A (snd (vel b)) (fmul A (snd acc) dt));
          v = (fmul A (fst v1) (flit A (85 / 100)), fmul A (snd v1) (flit A (85 / 100)));
          nextPos = (fadd A (fst (pos b)) (fmul A (fst v) dt),
                     fadd A (snd (pos b)) (fmul A (snd v) dt))
      in (v, nextPos))"

text \<open>The wall test of one axis, the two \<^verbatim>\<open>if ... else if\<close> statements.\<close>

definition fwall_hit ::
  "'f fp \<Rightarrow> bool \<Rightarrow> bool \<Rightarrow> 'f \<Rightarrow> 'f \<Rightarrow> 'f \<Rightarrow> 'f \<Rightarrow> 'f \<Rightarrow> 'f \<times> 'f" where
  "fwall_hit A wLow wHigh cellLow cellHigh r p v =
     (let bounce = flit A (4 / 10) in
      if wLow \<and> flt A (fsub A p r) cellLow then (fadd A cellLow r, fmul A (fneg A v) bounce)
      else if wHigh \<and> flt A cellHigh (fadd A p r) then (fsub A cellHigh r, fmul A (fneg A v) bounce)
      else (p, v))"

text \<open>The final clamp of one axis: first against \<^verbatim>\<open>r\<close>, then against the maximum.\<close>

definition fclamp_bounds :: "'f fp \<Rightarrow> 'f \<Rightarrow> 'f \<Rightarrow> 'f \<Rightarrow> 'f" where
  "fclamp_bounds A r maxv p =
     (let p1 = (if flt A p r then r else p)
      in if flt A maxv p1 then maxv else p1)"

text \<open>
  The product \<^verbatim>\<open>k * cell\<close> of an \<^verbatim>\<open>int\<close> and a cell size: the edges
  \<^verbatim>\<open>gx * maze.cellW\<close> and \<^verbatim>\<open>(gx + 1) * maze.cellW\<close> of a cell, and the extent
  \<^verbatim>\<open>maze.w * maze.cellW\<close> of the maze.
\<close>

definition fedge :: "'f fp \<Rightarrow> int \<Rightarrow> 'f \<Rightarrow> 'f" where
  "fedge A k cell = fmul A (fint A k) cell"

text \<open>
  The collisions and the final clamp. The cell is the one of the position before the step;
  where a conversion to \<^verbatim>\<open>int\<close> is undefined the result is \<^term>\<open>None\<close>. The sums
  \<^verbatim>\<open>gx + 1\<close> and \<^verbatim>\<open>gy + 1\<close> have 32 bits.
\<close>

definition fcollide ::
  "'f fp \<Rightarrow> 'f gmaze \<Rightarrow> ('f, 'm) gball \<Rightarrow> 'f \<times> 'f \<Rightarrow> 'f \<times> 'f \<Rightarrow> ('f, 'm) gball option" where
  "fcollide A mz b v nextPos =
     (case ftrunc A (fdiv A (fst (pos b)) (cellW mz)) of
        None \<Rightarrow> None
      | Some gx \<Rightarrow>
         (case ftrunc A (fdiv A (snd (pos b)) (cellH mz)) of
            None \<Rightarrow> None
          | Some gy \<Rightarrow>
             (case maze_at mz gx gy of
                None \<Rightarrow> None
              | Some c \<Rightarrow>
                 (let cellLeft = fedge A gx (cellW mz);
                      cellRight = fedge A (wrap32 (gx + 1)) (cellW mz);
                      cellTop = fedge A gy (cellH mz);
                      cellBottom = fedge A (wrap32 (gy + 1)) (cellH mz);
                      r = radius b;
                      hx = fwall_hit A (wW c) (wE c) cellLeft cellRight r (fst nextPos) (fst v);
                      hy = fwall_hit A (wN c) (wS c) cellTop cellBottom r (snd nextPos) (snd v);
                      maxW = fsub A (fedge A (w mz) (cellW mz)) r;
                      maxH = fsub A (fedge A (h mz) (cellH mz)) r
                  in Some (b\<lparr>pos := (fclamp_bounds A r maxW (fst hx), fclamp_bounds A r maxH (fst hy)),
                              vel := (snd hx, snd hy)\<rparr>)))))"

text \<open>Step 8 and the collisions, for an acceleration \<^term>\<open>acc\<close>.\<close>

definition fstep ::
  "'f fp \<Rightarrow> 'f \<Rightarrow> 'f \<times> 'f \<Rightarrow> 'f gmaze \<Rightarrow> ('f, 'm) gball \<Rightarrow> ('f, 'm) gball option" where
  "fstep A dt acc mz b = fcollide A mz b (fst (fintegrate A dt acc b)) (snd (fintegrate A dt acc b))"

text \<open>A finite sequence of calls, each with its own \<^verbatim>\<open>dt\<close> and its own acceleration.\<close>

fun fsteps ::
  "'f fp \<Rightarrow> 'f gmaze \<Rightarrow> ('f \<times> 'f \<times> 'f) list \<Rightarrow> ('f, 'm) gball \<Rightarrow> ('f, 'm) gball option" where
  "fsteps A mz [] b = Some b"
| "fsteps A mz ((dt, acc) # ins) b =
     (case fstep A dt acc mz b of
        None \<Rightarrow> None
      | Some b' \<Rightarrow> fsteps A mz ins b')"

section \<open>Smoothing/smoothing.cpp: PoseSmoother\<close>

text \<open>
  A pose vector is a \<^verbatim>\<open>cv::Mat\<close> holding three numbers, or the empty matrix
  (\<^term>\<open>None\<close>). A call of OpenCV on an empty matrix throws.
\<close>

datatype error = CvException

record PoseSmoother =
  hasPose :: bool
  rPrev :: "vec3 option"
  tPrev :: "vec3 option"
  alphaPose :: real

definition toQuat :: "extern \<Rightarrow> mat3 \<Rightarrow> quat" where
  "toQuat L R = quat_cast L R"

text \<open>
  The quaternion step of \<^verbatim>\<open>smooth\<close>: the current quaternion is negated when its
  dot product with the previous one is negative, then \<^verbatim>\<open>glm::slerp\<close> is called.
\<close>

definition smooth_quat :: "extern \<Rightarrow> real \<Rightarrow> quat \<Rightarrow> quat \<Rightarrow> quat" where
  "smooth_quat L a qPre qCur =
     (let qCur' = (if qdot qCur qPre < 0 then qneg qCur else qCur)
      in slerp L qPre qCur' a)"

definition smooth ::
  "extern \<Rightarrow> PoseSmoother \<Rightarrow> vec3 option \<Rightarrow> vec3 option
     \<Rightarrow> error + (PoseSmoother \<times> vec3 option \<times> vec3 option)" where
  "smooth L s rvec tvec =
     (case (rvec, tvec) of
        (Some r, Some t) \<Rightarrow>
          if \<not> hasPose s then
            Inr (s\<lparr>rPrev := Some r, tPrev := Some t, hasPose := True\<rparr>, Some r, Some t)
          else
            (case (tPrev s, rPrev s) of
               (Some tp, Some rp) \<Rightarrow>
                 (let t' = add3 (scale3 (1 - alphaPose s) tp) (scale3 (alphaPose s) t);
                      Rcur = Rodrigues L r;
                      Rprev = Rodrigues L rp;
                      qCur = toQuat L Rcur;
                      qPre = toQuat L Rprev;
                      qSm = smooth_quat L (alphaPose s) qPre qCur;
                      Rsm = mat3_cast L qSm;
                      r' = RodriguesInv L Rsm
                  in Inr (s\<lparr>tPrev := Some t', rPrev := Some r'\<rparr>, Some r', Some t'))
             | _ \<Rightarrow> Inl CvException)
      | _ \<Rightarrow> Inr (s, rvec, tvec))"

section \<open>Notions used in the statements\<close>

text \<open>
  A maze as the constructor builds it for positive sizes: the vector holds one cell for each
  pair of coordinates.
\<close>

definition wf_maze :: "'f gmaze \<Rightarrow> bool" where
  "wf_maze m \<longleftrightarrow> 1 \<le> w m \<and> 1 \<le> h m \<and> int (length (grid m)) = w m * h m"

text \<open>
  An instance of the library parameters for the examples: every pose vector is read as the
  rotation by zero (the board is seen flat).
\<close>

definition flat_extern :: extern where
  "flat_extern = \<lparr>Rodrigues = (\<lambda>rvec. eye3), RodriguesInv = (\<lambda>R. (0, 0, 0)),
                   quat_cast = (\<lambda>R. (1, 0, 0, 0)), mat3_cast = (\<lambda>q. eye3),
                   slerp = (\<lambda>p q t. p)\<rparr>"

text \<open>A second instance: every pose vector is read as one fixed tilt about the y axis.\<close>

definition tilt_extern :: extern where
  "tilt_extern = flat_extern\<lparr>Rodrigues := (\<lambda>rvec. ((3 / 5, 0, 4 / 5), (0, 1, 0), (- 4 / 5, 0, 3 / 5)))\<rparr>"

text \<open>The deadzone shaping as the specification words it, with the sign function \<^term>\<open>sgn\<close>.\<close>

definition shape :: "real \<Rightarrow> real \<Rightarrow> real" where
  "shape dz v = (if \<bar>v\<bar> < dz then 0 else sgn v * (\<bar>v\<bar> - dz) / (1 - dz))"

text \<open>The pose vector of the last call of \<^verbatim>\<open>setFlatReference\<close> in a sequence of calls.\<close>

fun last_ref :: "ball_op list \<Rightarrow> vec3 option" where
  "last_ref [] = None"
| "last_ref (x # xs) =
     (case last_ref xs of
        Some r \<Rightarrow> Some r
      | None \<Rightarrow> (case x of SetFlatReference r \<Rightarrow> Some r | _ \<Rightarrow> None))"

text \<open>A call whose maze is well formed, so that \<^verbatim>\<open>update\<close> reads inside the vector.\<close>

fun op_ok :: "ball_op \<Rightarrow> bool" where
  "op_ok (Update dt rvec mz) = (wf_maze mz \<and> cellW mz \<noteq> 0 \<and> cellH mz \<noteq> 0)"
| "op_ok (SetFlatReference rvec) = True"
| "op_ok (Reset mz) = True"

text \<open>
  The pose filter as the specification words it: the raw quaternion is negated when its dot
  product with the previous one is negative; the translation is the exponential moving
  average; the rotation is the spherical interpolation, converted back.
\<close>

definition sign_corrected :: "quat \<Rightarrow> quat \<Rightarrow> quat" where
  "sign_corrected qPrev qRaw = (if qdot qRaw qPrev < 0 then qneg qRaw else qRaw)"

definition ema :: "real \<Rightarrow> real \<Rightarrow> real \<Rightarrow> real" where
  "ema \<alpha> prev raw = (1 - \<alpha>) * prev + \<alpha> * raw"

definition smooth_next :: "extern \<Rightarrow> real \<Rightarrow> vec3 \<Rightarrow> vec3 \<Rightarrow> vec3 \<Rightarrow> vec3 \<Rightarrow> vec3 \<times> vec3" where
  "smooth_next L \<alpha> rp tp r t =
     (case (tp, t) of ((p1, p2, p3), (t1, t2, t3)) \<Rightarrow>
        (let q_prev = quat_cast L (Rodrigues L rp);
             q_raw = sign_corrected q_prev (quat_cast L (Rodrigues L r));
             q' = slerp L q_prev q_raw \<alpha>
         in (RodriguesInv L (mat3_cast L q'), (ema \<alpha> p1 t1, ema \<alpha> p2 t2, ema \<alpha> p3 t3))))"

text \<open>
  Modelled from the spec: \<^verbatim>\<open>glm::slerp\<close> is a function of the GLM library and its
  code is not in the repository. This is the SLERP of the specification, the spherical linear
  interpolation between two unit quaternions: with \<open>\<theta>\<close> the angle between \<^term>\<open>p\<close>
  and \<^term>\<open>q\<close>, the point \<open>(sin ((1 - t) \<theta>) p + sin (t \<theta>) q) / sin \<theta>\<close> of the
  arc from \<^term>\<open>p\<close> to \<^term>\<open>q\<close>, and \<^term>\<open>p\<close> when the angle is zero.
\<close>

fun qscale :: "real \<Rightarrow> quat \<Rightarrow> quat" where
  "qscale k (qw, qx, qy, qz) = (k * qw, k * qx, k * qy, k * qz)"

fun qadd :: "quat \<Rightarrow> quat \<Rightarrow> quat" where
  "qadd (qw, qx, qy, qz) (pw, px, py, pz) = (qw + pw, qx + px, qy + py, qz + pz)"

definition slerp_spec :: "quat \<Rightarrow> quat \<Rightarrow> real \<Rightarrow> quat" where
  "slerp_spec p q t =
     (let \<theta> = arccos (qdot p q) in
      if sin \<theta> = 0 then p
      else qadd (qscale (sin ((1 - t) * \<theta>) / sin \<theta>) p) (qscale (sin (t * \<theta>) / sin \<theta>) q))"

text \<open>
  The angular distance between the rotations of two unit quaternions, along the shortest
  arc: a quaternion and its antipode are the same rotation.
\<close>

definition ang :: "quat \<Rightarrow> quat \<Rightarrow> real" where
  "ang p q = 2 * arccos \<bar>qdot p q\<bar>"

subsection \<open>The maze as a graph\<close>

text \<open>
  The cells of the grid are named by their coordinates \<^verbatim>\<open>(x, y)\<close>; the cell
  \<^verbatim>\<open>(x, y)\<close> is the element \<^verbatim>\<open>y * w + x\<close> of the vector.
\<close>

definition idx :: "maze \<Rightarrow> int \<times> int \<Rightarrow> nat" where
  "idx m p = nat (snd p * w m + fst p)"

definition cell_of :: "maze \<Rightarrow> int \<times> int \<Rightarrow> cell" where
  "cell_of m p = grid m ! idx m p"

definition in_grid :: "maze \<Rightarrow> int \<times> int \<Rightarrow> bool" where
  "in_grid m p \<longleftrightarrow> 0 \<le> fst p \<and> fst p < w m \<and> 0 \<le> snd p \<and> snd p < h m"

text \<open>The four neighbours, as \<^term>\<open>dirs\<close> lists them.\<close>

definition adjacent :: "int \<times> int \<Rightarrow> int \<times> int \<Rightarrow> bool" where
  "adjacent p q \<longleftrightarrow>
     q = (fst p, snd p + 1) \<or> q = (fst p + 1, snd p) \<or>
     q = (fst p, snd p - 1) \<or> q = (fst p - 1, snd p)"

text \<open>A cell with the wall that faces the neighbour \<^term>\<open>q\<close> cleared.\<close>

definition open_toward :: "int \<times> int \<Rightarrow> int \<times> int \<Rightarrow> cell \<Rightarrow> cell" where
  "open_toward p q c =
     (if fst q > fst p then c\<lparr>wE := False\<rparr>
      else if fst q < fst p then c\<lparr>wW := False\<rparr>
      else if snd q > snd p then c\<lparr>wS := False\<rparr>
      else c\<lparr>wN := False\<rparr>)"

text \<open>The maze after one carving step from \<^term>\<open>c\<close> to its neighbour \<^term>\<open>n\<close>.\<close>

definition carved :: "maze \<Rightarrow> int \<times> int \<Rightarrow> int \<times> int \<Rightarrow> maze" where
  "carved m c n =
     m\<lparr>grid := (grid m)[idx m c := open_toward c n (cell_of m c),
                         idx m n := (open_toward n c (cell_of m n))\<lparr>visited := True\<rparr>]\<rparr>"

text \<open>
  An open passage joins two neighbouring cells of the grid when the wall between them is
  cleared on both sides. The flood-fill from \<^verbatim>\<open>(0,0)\<close> visits the cells that
  \<^term>\<open>reachable\<close> holds for.
\<close>

definition passage :: "maze \<Rightarrow> int \<times> int \<Rightarrow> int \<times> int \<Rightarrow> bool" where
  "passage m p q \<longleftrightarrow> in_grid m p \<and> in_grid m q \<and>
     ((q = (fst p + 1, snd p) \<and> \<not> wE (cell_of m p) \<and> \<not> wW (cell_of m q)) \<or>
      (q = (fst p - 1, snd p) \<and> \<not> wW (cell_of m p) \<and> \<not> wE (cell_of m q)) \<or>
      (q = (fst p, snd p + 1) \<and> \<not> wS (cell_of m p) \<and> \<not> wN (cell_of m q)) \<or>
      (q = (fst p, snd p - 1) \<and> \<not> wN (cell_of m p) \<and> \<not> wS (cell_of m q)))"

inductive reachable :: "maze \<Rightarrow> int \<times> int \<Rightarrow> bool" for m :: maze where
  start: "reachable m (0, 0)"
| step: "reachable m p \<Longrightarrow> passage m p q \<Longrightarrow> reachable m q"

text \<open>
  The passages are counted at their western and northern ends: a cleared east wall and a
  cleared south wall. With \<^term>\<open>walls_consistent\<close> (each inner wall has the same flag
  on both sides, and the outer walls stand) this counts every passage once.
\<close>

definition n_passages :: "maze \<Rightarrow> nat" where
  "n_passages m = length (filter (\<lambda>c. \<not> wE c) (grid m)) + length (filter (\<lambda>c. \<not> wS c) (grid m))"

definition n_visited :: "maze \<Rightarrow> nat" where
  "n_visited m = length (filter visited (grid m))"

definition walls_consistent :: "maze \<Rightarrow> bool" where
  "walls_consistent m \<longleftrightarrow>
     (\<forall>x y. in_grid m (x, y) \<longrightarrow>
        (wE (cell_of m (x, y)) = (if x + 1 < w m then wW (cell_of m (x + 1, y)) else True)) \<and>
        (wS (cell_of m (x, y)) = (if y + 1 < h m then wN (cell_of m (x, y + 1)) else True)) \<and>
        (x = 0 \<longrightarrow> wW (cell_of m (x, y))) \<and>
        (y = 0 \<longrightarrow> wN (cell_of m (x, y))))"

text \<open>A cycle of the passage graph: at least three different cells, each joined to the
  next and the last to the first.\<close>

definition simple_cycle :: "maze \<Rightarrow> (int \<times> int) list \<Rightarrow> bool" where
  "simple_cycle m ps \<longleftrightarrow>
     3 \<le> length ps \<and> distinct ps \<and>
     (\<forall>i. i + 1 < length ps \<longrightarrow> passage m (ps ! i) (ps ! (i + 1))) \<and>
     passage m (last ps) (hd ps)"

text \<open>The invariant of the loop of \<^verbatim>\<open>generate\<close>, for the maze and the stack.\<close>

definition closed_cell :: "cell \<Rightarrow> bool" where
  "closed_cell c \<longleftrightarrow> wN c \<and> wS c \<and> wE c \<and> wW c"

definition carve_inv :: "maze \<Rightarrow> (int \<times> int) list \<Rightarrow> bool" where
  "carve_inv m stack \<longleftrightarrow>
     wf_maze m \<and>
     (\<forall>p \<in> set stack. in_grid m p \<and> visited (cell_of m p)) \<and>
     visited (cell_of m (0, 0)) \<and>
     (\<forall>p. in_grid m p \<and> visited (cell_of m p) \<longrightarrow> reachable m p) \<and>
     (\<forall>p q. in_grid m p \<and> visited (cell_of m p) \<and> in_grid m q \<and> adjacent p q \<longrightarrow>
        p \<in> set stack \<or> visited (cell_of m q)) \<and>
     (\<forall>p. in_grid m p \<and> \<not> visited (cell_of m p) \<longrightarrow> closed_cell (cell_of m p)) \<and>
     walls_consistent m \<and>
     n_passages m + 1 = n_visited m \<and>
     (\<forall>ps. \<not> simple_cycle m ps)"

text \<open>
  An instance of the random source for the examples: the generator of the GNU C library
  (\<^verbatim>\<open>random_r\<close>, type 3). The state is the window of the last 31 words. \<^verbatim>\<open>srand\<close> fills it from the seed, a seed
  of 0 being read as 1, with the linear congruential generator
  \<^verbatim>\<open>word = 16807 * word % 2147483647\<close> computed in 32 bits, and discards 310 values;
  \<^verbatim>\<open>rand\<close> adds the words 31 and 3 places back and returns the sum without its lowest
  bit.
\<close>

definition tdiv :: "int \<Rightarrow> int \<Rightarrow> int" where
  "tdiv a b = sgn a * sgn b * (\<bar>a\<bar> div \<bar>b\<bar>)"

definition glibc_next :: "int \<Rightarrow> int" where
  "glibc_next word =
     (let hi = tdiv word 127773;
          lo = word - hi * 127773;
          t = 16807 * lo - 2836 * hi
      in if t < 0 then t + 2147483647 else t)"

fun glibc_table :: "nat \<Rightarrow> int \<Rightarrow> int list" where
  "glibc_table n word =
     (if n = 0 then [] else glibc_next word # glibc_table (n - 1) (glibc_next word))"

declare glibc_table.simps [simp del]

definition glibc_rand :: "nat list \<Rightarrow> nat \<times> nat list" where
  "glibc_rand st = (let x = (st ! 0 + st ! 28) mod 2 ^ 32 in (x div 2, tl st @ [x]))"

fun glibc_skip :: "nat \<Rightarrow> nat list \<Rightarrow> nat list" where
  "glibc_skip n st = (if n = 0 then st else glibc_skip (n - 1) (snd (glibc_rand st)))"

declare glibc_skip.simps [simp del]

definition glibc_word :: "nat \<Rightarrow> int" where
  "glibc_word seed =
     (if seed mod 2 ^ 32 = 0 then 1
      else if seed mod 2 ^ 32 < 2 ^ 31 then int (seed mod 2 ^ 32)
      else int (seed mod 2 ^ 32) - 2 ^ 32)"

definition glibc_window :: "int list \<Rightarrow> nat list" where
  "glibc_window r = map (\<lambda>x. nat (x mod 2 ^ 32)) (drop 3 r @ take 3 r)"

definition glibc_srand :: "nat \<Rightarrow> nat list" where
  "glibc_srand seed =
     glibc_skip 310 (glibc_window (glibc_word seed # glibc_table 30 (glibc_word seed)))"

definition glibc_lib :: "nat list rng_lib" where
  "glibc_lib = \<lparr>srand = glibc_srand, rand = glibc_rand\<rparr>"


subsection \<open>Floating-point arithmetic\<close>

text \<open>
  What the statements use of the order of \<^verbatim>\<open>float\<close>: on values that are not NaN,
  \<^verbatim>\<open><\<close> and \<^verbatim>\<open><=\<close> are the two halves of a total order, and
  \<^verbatim>\<open><=\<close> holds of no NaN. IEEE 754 arithmetic has these properties, the infinities
  being values of the order.
\<close>

definition ordered :: "'f fp \<Rightarrow> bool" where
  "ordered A \<longleftrightarrow>
     (\<forall>x y. not_nan A x \<and> not_nan A y \<and> \<not> flt A x y \<longrightarrow> fle A y x) \<and>
     (\<forall>x. not_nan A x \<longrightarrow> fle A x x) \<and>
     (\<forall>x y. fle A x y \<longrightarrow> \<not> flt A y x) \<and>
     (\<forall>x y. fle A x y \<longrightarrow> not_nan A x \<and> not_nan A y)"

text \<open>The bounds \<^verbatim>\<open>maxW\<close> and \<^verbatim>\<open>maxH\<close> of the final clamp, as the code computes
  them, and a value between two bounds.\<close>

definition fmaxW :: "'f fp \<Rightarrow> 'f gmaze \<Rightarrow> ('f, 'm) gball \<Rightarrow> 'f" where
  "fmaxW A mz b = fsub A (fedge A (w mz) (cellW mz)) (radius b)"

definition fmaxH :: "'f fp \<Rightarrow> 'f gmaze \<Rightarrow> ('f, 'm) gball \<Rightarrow> 'f" where
  "fmaxH A mz b = fsub A (fedge A (h mz) (cellH mz)) (radius b)"

definition in_box :: "'f fp \<Rightarrow> 'f \<Rightarrow> 'f \<Rightarrow> 'f \<Rightarrow> bool" where
  "in_box A lo hi x \<longleftrightarrow> fle A lo x \<and> fle A x hi"

text \<open>
  An arithmetic for the examples: the values of \<^verbatim>\<open>float\<close> with the two infinities and
  NaN, the operations of IEEE 754 without rounding. A result is exact when its size is at most
  the largest \<^verbatim>\<open>float\<close>, and an infinity beyond it; the sum of the two infinities, the
  product of zero and an infinity and the quotients 0/0 and of two infinities are NaN; there
  is one zero, and a quotient by it has the sign of the dividend.
\<close>

datatype ext = Fin real | PInf | NInf | NaN

definition flt_max :: real where
  "flt_max = (2 - 1 / 2 ^ 23) * 2 ^ 127"

definition fin :: "real \<Rightarrow> ext" where
  "fin x = (if flt_max < x then PInf else if x < - flt_max then NInf else Fin x)"

fun eneg :: "ext \<Rightarrow> ext" where
  "eneg (Fin x) = Fin (- x)"
| "eneg PInf = NInf"
| "eneg NInf = PInf"
| "eneg NaN = NaN"

fun eadd :: "ext \<Rightarrow> ext \<Rightarrow> ext" where
  "eadd (Fin x) (Fin y) = fin (x + y)"
| "eadd NaN y = NaN"
| "eadd x NaN = NaN"
| "eadd PInf NInf = NaN"
| "eadd NInf PInf = NaN"
| "eadd PInf y = PInf"
| "eadd x PInf = PInf"
| "eadd NInf y = NInf"
| "eadd x NInf = NInf"

definition esub :: "ext \<Rightarrow> ext \<Rightarrow> ext" where
  "esub x y = eadd x (eneg y)"

text \<open>The sign of a value: 1, -1, and 0 for zero and NaN.\<close>

fun esgn :: "ext \<Rightarrow> int" where
  "esgn (Fin x) = (if 0 < x then 1 else if x < 0 then - 1 else 0)"
| "esgn PInf = 1"
| "esgn NInf = - 1"
| "esgn NaN = 0"

definition einf :: "int \<Rightarrow> ext" where
  "einf s = (if 0 < s then PInf else if s < 0 then NInf else NaN)"

fun emul :: "ext \<Rightarrow> ext \<Rightarrow> ext" where
  "emul (Fin x) (Fin y) = fin (x * y)"
| "emul x y = einf (esgn x * esgn y)"

fun ediv :: "ext \<Rightarrow> ext \<Rightarrow> ext" where
  "ediv (Fin x) (Fin y) = (if y = 0 then einf (esgn (Fin x)) else fin (x / y))"
| "ediv NaN y = NaN"
| "ediv x NaN = NaN"
| "ediv (Fin x) y = Fin 0"
| "ediv x (Fin y) = einf (esgn x * (if y < 0 then - 1 else 1))"
| "ediv x y = NaN"

fun elt :: "ext \<Rightarrow> ext \<Rightarrow> bool" where
  "elt (Fin x) (Fin y) \<longleftrightarrow> x < y"
| "elt NaN y \<longleftrightarrow> False"
| "elt x NaN \<longleftrightarrow> False"
| "elt x NInf \<longleftrightarrow> False"
| "elt PInf y \<longleftrightarrow> False"
| "elt NInf y \<longleftrightarrow> True"
| "elt x PInf \<longleftrightarrow> True"

definition ele :: "ext \<Rightarrow> ext \<Rightarrow> bool" where
  "ele x y \<longleftrightarrow> x \<noteq> NaN \<and> y \<noteq> NaN \<and> \<not> elt y x"

fun etrunc :: "ext \<Rightarrow> int option" where
  "etrunc (Fin x) = (if - 2147483649 < x \<and> x < 2147483648 then Some (to_int x) else None)"
| "etrunc x = None"

definition ext_fp :: "ext fp" where
  "ext_fp = \<lparr>fadd = eadd, fsub = esub, fmul = emul, fdiv = ediv, fneg = eneg, flt = elt,
              fint = (\<lambda>n. fin (real_of_int n)), ftrunc = etrunc, flit = fin,
              fle = ele, not_nan = (\<lambda>x. x \<noteq> NaN)\<rparr>"

text \<open>A maze over the reals, read in this arithmetic, and a ball at rest or moving:
  radius \<^term>\<open>r\<close>, position \<^term>\<open>p\<close>, velocity \<^term>\<open>v\<close>.\<close>

definition ext_maze :: "maze \<Rightarrow> ext gmaze" where
  "ext_maze m = \<lparr>w = w m, h = h m, cellW = fin (cellW m), cellH = fin (cellH m),
                  wallThick = fin (wallThick m), grid = grid m\<rparr>"

definition ext_ball :: "real \<Rightarrow> real \<times> real \<Rightarrow> real \<times> real \<Rightarrow> (ext, mat3) gball" where
  "ext_ball r p v = \<lparr>pos = (fin (fst p), fin (snd p)), vel = (fin (fst v), fin (snd v)),
                      radius = fin r, hasFlatRef = True, R0 = eye3,
                      g = fin (981 / 100), gain = fin 1, deadzone = fin (3 / 100)\<rparr>"

text \<open>The acceleration of the examples: the one \<^verbatim>\<open>update\<close> computes, with the values of
  the constructor, for a board tilted about its y axis by the angle of cosine 3/5.\<close>

definition push :: real where
  "push = (77 / 97) * (981 / 100)"

text \<open>
  The tests of the collisions: a position, with the radius, beyond the low or the high edge
  of a cell; such a position with the flag of the wall set; and the velocity after a bounce.
\<close>

definition past_low :: "'f fp \<Rightarrow> 'f \<Rightarrow> 'f \<Rightarrow> 'f \<Rightarrow> bool" where
  "past_low A edge r p \<longleftrightarrow> flt A (fsub A p r) edge"

definition past_high :: "'f fp \<Rightarrow> 'f \<Rightarrow> 'f \<Rightarrow> 'f \<Rightarrow> bool" where
  "past_high A edge r p \<longleftrightarrow> flt A edge (fadd A p r)"

definition low_hit :: "'f fp \<Rightarrow> bool \<Rightarrow> 'f \<Rightarrow> 'f \<Rightarrow> 'f \<Rightarrow> bool" where
  "low_hit A flag edge r p \<longleftrightarrow> flag \<and> past_low A edge r p"

definition high_hit :: "'f fp \<Rightarrow> bool \<Rightarrow> 'f \<Rightarrow> 'f \<Rightarrow> 'f \<Rightarrow> bool" where
  "high_hit A flag edge r p \<longleftrightarrow> flag \<and> past_high A edge r p"

definition bounced :: "'f fp \<Rightarrow> 'f \<Rightarrow> 'f" where
  "bounced A v = fmul A (fneg A v) (flit A (4 / 10))"

section \<open>Properties\<close>

subsection \<open>Reading the grid\<close>

lemma at_index_wf:
  assumes "wf_maze m"
  shows "\<exists>i. at_index m x y = Some i \<and> i < length (grid m)"
proof -
  define x2 where "x2 = (if (if x < 0 then 0 else x) \<ge> w m then w m - 1 else (if x < 0 then 0 else x))"
  define y2 where "y2 = (if (if y < 0 then 0 else y) \<ge> h m then h m - 1 else (if y < 0 then 0 else y))"
  from assms have W: "1 \<le> w m" and H: "1 \<le> h m" and L: "int (length (grid m)) = w m * h m"
    by (auto simp: wf_maze_def)
  have x2: "0 \<le> x2" "x2 \<le> w m - 1" using W by (auto simp: x2_def)
  have y2: "0 \<le> y2" "y2 \<le> h m - 1" using H by (auto simp: y2_def)
  have lo: "0 \<le> y2 * w m + x2" using x2 y2 W by simp
  have "y2 * w m \<le> (h m - 1) * w m" using y2 W by (intro mult_right_mono) auto
  then have hi: "y2 * w m + x2 < w m * h m" using x2 by (simp add: algebra_simps)
  show ?thesis
    using lo hi L unfolding at_index_def Let_def x2_def[symmetric] y2_def[symmetric]
    by (auto simp: nat_less_iff)
qed

lemma maze_at_wf: "wf_maze m \<Longrightarrow> \<exists>c. maze_at m x y = Some c"
  using at_index_wf[of m x y] by (auto simp: maze_at_def)

subsection \<open>The step returns\<close>

lemma collide_Some:
  assumes "wf_maze mz" "cellW mz \<noteq> 0" "cellH mz \<noteq> 0"
  shows "\<exists>b'. collide mz b v np = Some b'"
proof -
  obtain c where "maze_at mz (to_int (fst (pos b) / cellW mz)) (to_int (snd (pos b) / cellH mz)) = Some c"
    using maze_at_wf[OF assms(1)] by blast
  then show ?thesis using assms(2,3)
    by (simp add: collide_def Let_def split: prod.splits)
qed

lemma update_Some:
  assumes "wf_maze mz" "cellW mz \<noteq> 0" "cellH mz \<noteq> 0"
  shows "\<exists>b'. update L dt rvec mz b = Some b'"
  using collide_Some[OF assms] by (simp add: update_def Let_def split: prod.splits)

subsection \<open>The flat reference\<close>

lemma collide_fields:
  assumes "collide mz b v np = Some b'"
  shows "R0 b' = R0 b \<and> hasFlatRef b' = hasFlatRef b \<and> radius b' = radius b \<and>
         deadzone b' = deadzone b \<and> g b' = g b \<and> gain b' = gain b"
  using assms
  by (auto simp: collide_def Let_def split: if_splits option.splits prod.splits)

lemma update_latched:
  assumes "hasFlatRef b"
  shows "update L dt rvec mz b =
           collide mz b (fst (integrate dt (acceleration b (Rodrigues L rvec)) b))
                        (snd (integrate dt (acceleration b (Rodrigues L rvec)) b))"
  using assms by (simp add: update_def Let_def split: prod.splits)

lemma update_keeps_ref:
  assumes "hasFlatRef b" "update L dt rvec mz b = Some b'"
  shows "R0 b' = R0 b \<and> hasFlatRef b'"
  using assms collide_fields[of mz b _ _ b'] by (simp add: update_latched)

lemma apply_op_ref:
  assumes "hasFlatRef b" "apply_op L x b = Some b1"
  shows "hasFlatRef b1 \<and>
         R0 b1 = (case x of SetFlatReference r \<Rightarrow> Rodrigues L r | _ \<Rightarrow> R0 b)"
  using assms update_keeps_ref[of b L _ _ _ b1]
  by (cases x) (auto simp: setFlatReference_def reset_def)

lemma run_ops_Some: "list_all op_ok ops \<Longrightarrow> \<exists>b'. run_ops L ops b = Some b'"
proof (induction ops arbitrary: b)
  case Nil
  then show ?case by simp
next
  case (Cons x xs)
  have "\<exists>b1. apply_op L x b = Some b1"
    using Cons.prems update_Some by (cases x) auto
  then obtain b1 where "apply_op L x b = Some b1" by blast
  then show ?case using Cons.IH[of b1] Cons.prems by simp
qed

lemma run_ops_ref:
  "hasFlatRef b \<Longrightarrow> run_ops L ops b = Some b' \<Longrightarrow>
     hasFlatRef b' \<and>
     R0 b' = (case last_ref ops of None \<Rightarrow> R0 b | Some rv \<Rightarrow> Rodrigues L rv)"
proof (induction ops arbitrary: b)
  case Nil
  then show ?case by simp
next
  case (Cons x xs)
  from Cons.prems(2) obtain b1 where b1: "apply_op L x b = Some b1" and r: "run_ops L xs b1 = Some b'"
    by (auto split: option.splits)
  from apply_op_ref[OF Cons.prems(1) b1] have h1: "hasFlatRef b1"
    and R1: "R0 b1 = (case x of SetFlatReference r \<Rightarrow> Rodrigues L r | _ \<Rightarrow> R0 b)" by auto
  from Cons.IH[OF h1 r] show ?case using R1
    by (auto split: option.splits ball_op.splits)
qed

lemma frame_ball_ref:
  assumes "hasFlatRef b" "frame_ball L poseOk has_pose key_R dt rvec mz b = Some b'"
  shows "hasFlatRef b' \<and> R0 b' = (if has_pose \<and> key_R then Rodrigues L rvec else R0 b)"
proof (cases has_pose)
  case False
  then show ?thesis using assms by (simp add: frame_ball_def)
next
  case True
  let ?b2 = "if key_R then (setFlatReference L rvec b)\<lparr>vel := (0, 0)\<rparr> else b"
  have u: "update L dt rvec mz ?b2 = Some b'"
    using assms True by (simp add: frame_ball_def Let_def)
  have h2: "hasFlatRef ?b2" using assms(1) by (simp add: setFlatReference_def)
  from update_keeps_ref[OF h2 u] show ?thesis
    using True by (simp add: setFlatReference_def)
qed

text \<open>
  C7: once the flat reference is latched (\<^term>\<open>hasFlatRef\<close> holds), it stays latched and
  no call of \<^verbatim>\<open>update\<close> (nor of \<^verbatim>\<open>reset\<close>) changes \<^term>\<open>R0\<close>: after any
  sequence of calls on the ball, \<^term>\<open>R0\<close> is the rotation of the last call of
  \<^verbatim>\<open>setFlatReference\<close> in the sequence, and the old one when there is none; and a
  pass of the frame loop changes \<^term>\<open>R0\<close> only when the key R is pressed while a pose
  is known. The ball holds one \<^term>\<open>R0\<close>, so one reference is active at a time.
\<close>

theorem flat_reference_kept:
  assumes "hasFlatRef b"
  shows "(run_ops L ops b = Some b' \<longrightarrow>
            hasFlatRef b' \<and>
            R0 b' = (case last_ref ops of None \<Rightarrow> R0 b | Some rv \<Rightarrow> Rodrigues L rv)) \<and>
         (frame_ball L poseOk has_pose key_R dt rvec mz b = Some b'' \<longrightarrow>
            hasFlatRef b'' \<and> R0 b'' = (if has_pose \<and> key_R then Rodrigues L rvec else R0 b))"
  using run_ops_ref[OF assms] frame_ball_ref[OF assms] by blast

theorem flat_reference_kept_witness:
  "hasFlatRef (setFlatReference tilt_extern (0, 1, 0) (new_Ball (1 / 100))) \<and>
   (\<exists>b'. run_ops flat_extern
            [Update (1 / 60) (0, 0, 0) (the (new_Maze 8 6 (297 / 1000) (210 / 1000) (35 / 10000))),
             Reset (the (new_Maze 8 6 (297 / 1000) (210 / 1000) (35 / 10000))),
             Update (1 / 20) (1, 0, 0) (the (new_Maze 8 6 (297 / 1000) (210 / 1000) (35 / 10000)))]
            (setFlatReference tilt_extern (0, 1, 0) (new_Ball (1 / 100))) = Some b' \<and>
          hasFlatRef b' \<and> R0 b' = ((3 / 5, 0, 4 / 5), (0, 1, 0), (- 4 / 5, 0, 3 / 5))) \<and>
   (\<exists>b'. frame_ball flat_extern True True False (1 / 60) (0, 0, 0)
            (the (new_Maze 8 6 (297 / 1000) (210 / 1000) (35 / 10000)))
            (setFlatReference tilt_extern (0, 1, 0) (new_Ball (1 / 100))) = Some b' \<and>
          hasFlatRef b' \<and> R0 b' = ((3 / 5, 0, 4 / 5), (0, 1, 0), (- 4 / 5, 0, 3 / 5)))"
proof -
  let ?mz = "the (new_Maze 8 6 (297 / 1000) (210 / 1000) (35 / 10000))"
  let ?b = "setFlatReference tilt_extern (0, 1, 0) (new_Ball (1 / 100))"
  let ?ops = "[Update (1 / 60) (0, 0, 0) ?mz, Reset ?mz, Update (1 / 20) (1, 0, 0) ?mz]"
  have h: "hasFlatRef ?b" by (simp add: setFlatReference_def)
  have wf: "wf_maze ?mz" "cellW ?mz \<noteq> 0" "cellH ?mz \<noteq> 0"
    by (simp_all add: wf_maze_def new_Maze_def wrap32_def)
  then have "list_all op_ok ?ops" by simp
  then obtain b' where r: "run_ops flat_extern ?ops ?b = Some b'"
    using run_ops_Some by blast
  obtain b'' where u: "update flat_extern (1 / 60) (0, 0, 0) ?mz ?b = Some b''"
    using update_Some[OF wf] by blast
  then have f: "frame_ball flat_extern True True False (1 / 60) (0, 0, 0) ?mz ?b = Some b''"
    using h by (simp add: frame_ball_def)
  have R: "R0 ?b = ((3 / 5, 0, 4 / 5), (0, 1, 0), (- 4 / 5, 0, 3 / 5))"
    by (simp add: setFlatReference_def tilt_extern_def flat_extern_def)
  from flat_reference_kept[OF h, of flat_extern ?ops b' True True False "1 / 60" "(0, 0, 0)" ?mz b'']
    h r f R
  show ?thesis by simp
qed

subsection \<open>The planar acceleration\<close>

lemma applyDeadzone_shape: "0 \<le> dz \<Longrightarrow> applyDeadzone v dz = shape dz v"
  by (auto simp: applyDeadzone_def shape_def sgn_real_def Let_def)

lemma gravity_components:
  "gravity ((p00, p01, p02), (p10, p11, p12), (p20, p21, p22))
           ((r00, r01, r02), (r10, r11, r12), (r20, r21, r22)) =
     (- (r00 * p02 + r10 * p12 + r20 * p22),
      - (r01 * p02 + r11 * p12 + r21 * p22),
      - (r02 * p02 + r12 * p12 + r22 * p22))"
  by (simp add: gravity_def Let_def algebra_simps)

text \<open>
  C4: with a latched reference \<^term>\<open>R0\<close> and a deadzone that is not negative, the
  acceleration of \<^verbatim>\<open>update\<close> is \<^verbatim>\<open>(-s(ax)*g*gain, -s(ay)*g*gain)\<close>, where
  \<^verbatim>\<open>(ax, ay)\<close> are the first two components of \<^verbatim>\<open>(R0^T * R)^T * (0,0,-1)\<close>
  and \<^verbatim>\<open>s\<close> is the deadzone shaping \<^term>\<open>shape\<close>; the step then integrates this
  acceleration and resolves the collisions.
\<close>

theorem planar_acceleration:
  assumes "hasFlatRef b" "0 \<le> deadzone b"
  shows "(case mat_vec (transpose3 (mat_mul (transpose3 (R0 b)) (Rodrigues L rvec))) (0, 0, - 1) of
            (ax, ay, az) \<Rightarrow>
              acceleration b (Rodrigues L rvec) =
                (- shape (deadzone b) ax * g b * gain b, - shape (deadzone b) ay * g b * gain b)) \<and>
         update L dt rvec mz b =
           collide mz b (fst (integrate dt (acceleration b (Rodrigues L rvec)) b))
                        (snd (integrate dt (acceleration b (Rodrigues L rvec)) b))"
  using assms
  by (simp add: update_latched acceleration_def gravity_def Let_def applyDeadzone_shape
      split: prod.splits)

theorem planar_acceleration_witness:
  "hasFlatRef (setFlatReference flat_extern (0, 0, 0) (new_Ball (1 / 100))) \<and>
   0 \<le> deadzone (setFlatReference flat_extern (0, 0, 0) (new_Ball (1 / 100))) \<and>
   acceleration (setFlatReference flat_extern (0, 0, 0) (new_Ball (1 / 100)))
     (Rodrigues tilt_extern (0, 1, 0)) = (- (77 / 97) * (981 / 100), 0)"
  using planar_acceleration[of "setFlatReference flat_extern (0, 0, 0) (new_Ball (1 / 100))"
          tilt_extern "(0, 1, 0)" "1 / 60" "the (new_Maze 8 6 (297 / 1000) (210 / 1000) (35 / 10000))"]
  by (simp add: setFlatReference_def new_Ball_def flat_extern_def tilt_extern_def eye3_def shape_def)

text \<open>
  C10: a call of \<^verbatim>\<open>update\<close> without a latched reference, with a rotation matrix
  \<^verbatim>\<open>R\<close> (its transpose is its inverse) and a deadzone that is not negative, latches
  \<^verbatim>\<open>R\<close>; the acceleration of that step is exactly zero, so the step is the
  collision stage applied to the velocity damped by 0.85 and to the position advanced by
  that velocity times \<^verbatim>\<open>dt\<close>.
\<close>

theorem first_update_latches:
  assumes "\<not> hasFlatRef b"
    and "mat_mul (transpose3 (Rodrigues L rvec)) (Rodrigues L rvec) = eye3"
    and "0 \<le> deadzone b"
    and "update L dt rvec mz b = Some b'"
  shows "R0 b' = Rodrigues L rvec \<and> hasFlatRef b' \<and>
         acceleration (b\<lparr>R0 := Rodrigues L rvec, hasFlatRef := True\<rparr>) (Rodrigues L rvec) = (0, 0) \<and>
         collide mz (b\<lparr>R0 := Rodrigues L rvec, hasFlatRef := True\<rparr>)
           (fst (vel b) * (85 / 100), snd (vel b) * (85 / 100))
           (fst (pos b) + fst (vel b) * (85 / 100) * dt, snd (pos b) + snd (vel b) * (85 / 100) * dt)
           = Some b'"
proof -
  let ?R = "Rodrigues L rvec"
  let ?b1 = "b\<lparr>R0 := ?R, hasFlatRef := True\<rparr>"
  have g: "gravity ?R ?R = (0, 0, - 1)"
    using assms(2) by (simp add: gravity_def Let_def eye3_def)
  have acc: "acceleration ?b1 ?R = (0, 0)"
    using assms(3) by (simp add: acceleration_def g applyDeadzone_def Let_def)
  have upd: "update L dt rvec mz b =
      collide mz ?b1 (fst (vel b) * (85 / 100), snd (vel b) * (85 / 100))
        (fst (pos b) + fst (vel b) * (85 / 100) * dt, snd (pos b) + snd (vel b) * (85 / 100) * dt)"
    using assms(1) acc by (simp add: update_def Let_def integrate_def)
  with assms(4) have c: "collide mz ?b1 (fst (vel b) * (85 / 100), snd (vel b) * (85 / 100))
        (fst (pos b) + fst (vel b) * (85 / 100) * dt, snd (pos b) + snd (vel b) * (85 / 100) * dt) = Some b'"
    by simp
  from collide_fields[OF c] acc c show ?thesis by simp
qed

theorem first_update_latches_witness:
  "\<not> hasFlatRef (new_Ball (1 / 100)) \<and>
   mat_mul (transpose3 (Rodrigues tilt_extern (0, 1, 0))) (Rodrigues tilt_extern (0, 1, 0)) = eye3 \<and>
   0 \<le> deadzone (new_Ball (1 / 100)) \<and>
   (\<exists>b'. update tilt_extern (1 / 60) (0, 1, 0)
            (the (new_Maze 8 6 (297 / 1000) (210 / 1000) (35 / 10000))) (new_Ball (1 / 100)) = Some b' \<and>
          R0 b' = ((3 / 5, 0, 4 / 5), (0, 1, 0), (- 4 / 5, 0, 3 / 5)) \<and> hasFlatRef b')"
proof -
  let ?mz = "the (new_Maze 8 6 (297 / 1000) (210 / 1000) (35 / 10000))"
  let ?b = "new_Ball (1 / 100)"
  have 1: "\<not> hasFlatRef ?b" by (simp add: new_Ball_def)
  have 2: "mat_mul (transpose3 (Rodrigues tilt_extern (0, 1, 0))) (Rodrigues tilt_extern (0, 1, 0)) = eye3"
    by (simp add: tilt_extern_def flat_extern_def eye3_def)
  have 3: "0 \<le> deadzone ?b" by (simp add: new_Ball_def)
  have "wf_maze ?mz" "cellW ?mz \<noteq> 0" "cellH ?mz \<noteq> 0" by (simp_all add: wf_maze_def new_Maze_def wrap32_def)
  then obtain b' where 4: "update tilt_extern (1 / 60) (0, 1, 0) ?mz ?b = Some b'"
    using update_Some by blast
  from first_update_latches[OF 1 2 3 4] 1 2 3 4 show ?thesis
    by (simp add: tilt_extern_def flat_extern_def)
qed

subsection \<open>The pose filter\<close>

text \<open>
  C8: a call of \<^verbatim>\<open>smooth\<close> with an empty rotation or an empty translation returns
  normally and leaves the state and both arguments as they were.
\<close>

theorem smooth_degenerate:
  "rvec = None \<or> tvec = None \<Longrightarrow> smooth L s rvec tvec = Inr (s, rvec, tvec)"
  by (auto simp: smooth_def split: option.splits)

theorem smooth_degenerate_witness:
  "(None = (None :: vec3 option) \<or> Some (4, 8, 12) = (None :: vec3 option)) \<and>
   smooth flat_extern \<lparr>hasPose = True, rPrev = Some (1, 2, 3), tPrev = Some (4, 8, 12), alphaPose = 1 / 4\<rparr>
     None (Some (4, 8, 12)) =
   Inr (\<lparr>hasPose = True, rPrev = Some (1, 2, 3), tPrev = Some (4, 8, 12), alphaPose = 1 / 4\<rparr>,
        None, Some (4, 8, 12))"
  using smooth_degenerate[of None "Some (4, 8, 12)" flat_extern
          "\<lparr>hasPose = True, rPrev = Some (1, 2, 3), tPrev = Some (4, 8, 12), alphaPose = 1 / 4\<rparr>"]
  by simp

lemma sign_corrected_dot: "0 \<le> qdot (sign_corrected qp q) qp"
  by (cases qp; cases q) (auto simp: sign_corrected_def)

text \<open>
  The raw quaternion and its antipode (the same rotation) give the same input to
  \<^verbatim>\<open>slerp\<close>, unless the dot product with the previous quaternion is zero.
\<close>

lemma sign_corrected_antipodal:
  "qdot q qp \<noteq> 0 \<Longrightarrow> sign_corrected qp (qneg q) = sign_corrected qp q"
  by (cases qp; cases q) (auto simp: sign_corrected_def)

text \<open>
  C5: on a call without a stored pose, \<^verbatim>\<open>smooth\<close> stores the raw vectors, returns
  them unchanged and sets \<^term>\<open>hasPose\<close>. On a call with a stored pose it returns and
  stores the pair \<^term>\<open>smooth_next\<close> describes: the moving average of the translation,
  and the rotation interpolated by \<^verbatim>\<open>slerp\<close> from the previous quaternion to the raw
  one, the raw one negated when needed, so that its dot product with the previous one is not
  negative.
\<close>

theorem pose_smoothing:
  "(\<not> hasPose s \<longrightarrow>
      smooth L s (Some r) (Some t) =
        Inr (s\<lparr>rPrev := Some r, tPrev := Some t, hasPose := True\<rparr>, Some r, Some t)) \<and>
   (hasPose s \<and> rPrev s = Some rp \<and> tPrev s = Some tp \<longrightarrow>
      (case smooth_next L (alphaPose s) rp tp r t of
         (r', t') \<Rightarrow>
           smooth L s (Some r) (Some t) =
             Inr (s\<lparr>tPrev := Some t', rPrev := Some r'\<rparr>, Some r', Some t')) \<and>
      0 \<le> qdot (sign_corrected (quat_cast L (Rodrigues L rp)) (quat_cast L (Rodrigues L r)))
                (quat_cast L (Rodrigues L rp)))"
  by (cases tp; cases t)
     (auto simp: smooth_def smooth_quat_def smooth_next_def Let_def toQuat_def ema_def sign_corrected_def
        sign_corrected_dot[unfolded sign_corrected_def] split: prod.splits)

theorem pose_smoothing_witness:
  "\<not> hasPose \<lparr>hasPose = False, rPrev = None, tPrev = None, alphaPose = 1 / 4\<rparr> \<and>
   smooth flat_extern \<lparr>hasPose = False, rPrev = None, tPrev = None, alphaPose = 1 / 4\<rparr>
     (Some (1, 2, 3)) (Some (4, 8, 12)) =
     Inr (\<lparr>hasPose = True, rPrev = Some (1, 2, 3), tPrev = Some (4, 8, 12), alphaPose = 1 / 4\<rparr>,
          Some (1, 2, 3), Some (4, 8, 12)) \<and>
   hasPose \<lparr>hasPose = True, rPrev = Some (1, 2, 3), tPrev = Some (4, 8, 12), alphaPose = 1 / 4\<rparr> \<and>
   smooth flat_extern \<lparr>hasPose = True, rPrev = Some (1, 2, 3), tPrev = Some (4, 8, 12), alphaPose = 1 / 4\<rparr>
     (Some (3, 2, 1)) (Some (8, 8, 8)) =
     Inr (\<lparr>hasPose = True, rPrev = Some (0, 0, 0), tPrev = Some (5, 8, 11), alphaPose = 1 / 4\<rparr>,
          Some (0, 0, 0), Some (5, 8, 11))"
  using pose_smoothing[of "\<lparr>hasPose = False, rPrev = None, tPrev = None, alphaPose = 1 / 4\<rparr>"
          flat_extern "(1, 2, 3)" "(4, 8, 12)" "(0, 0, 0)" "(0, 0, 0)"]
        pose_smoothing[of "\<lparr>hasPose = True, rPrev = Some (1, 2, 3), tPrev = Some (4, 8, 12), alphaPose = 1 / 4\<rparr>"
          flat_extern "(3, 2, 1)" "(8, 8, 8)" "(1, 2, 3)" "(4, 8, 12)"]
  by (simp add: smooth_next_def flat_extern_def ema_def Let_def)

subsection \<open>The step of the rotation\<close>

lemma qdot_commute: "qdot p q = qdot q p"
  by (cases p; cases q) (simp add: mult.commute)

lemma qdot_qneg_left: "qdot (qneg q) p = - qdot q p"
  by (cases p; cases q) simp

lemma qdot_qneg_self: "qdot (qneg q) (qneg q) = qdot q q"
  by (cases q) simp

lemma qdot_comb_left:
  "qdot (qadd (qscale a p) (qscale b q)) r = a * qdot p r + b * qdot q r"
  by (cases p; cases q; cases r) (simp add: algebra_simps)

lemma qdot_comb_self:
  "qdot (qadd (qscale a p) (qscale b q)) (qadd (qscale a p) (qscale b q)) =
     a * a * qdot p p + 2 * (a * b) * qdot p q + b * b * qdot q q"
  by (cases p; cases q) (simp add: algebra_simps)

lemma unit_dot_bound:
  assumes "qdot p p = 1" and "qdot q q = 1"
  shows "\<bar>qdot p q\<bar> \<le> 1"
proof -
  obtain pw px py pz where p: "p = (pw, px, py, pz)" by (cases p)
  obtain qw qx qy qz where q: "q = (qw, qx, qy, qz)" by (cases q)
  have m: "0 \<le> (pw - qw)\<^sup>2 + (px - qx)\<^sup>2 + (py - qy)\<^sup>2 + (pz - qz)\<^sup>2" by simp
  have pl: "0 \<le> (pw + qw)\<^sup>2 + (px + qx)\<^sup>2 + (py + qy)\<^sup>2 + (pz + qz)\<^sup>2" by simp
  have m': "(pw - qw)\<^sup>2 + (px - qx)\<^sup>2 + (py - qy)\<^sup>2 + (pz - qz)\<^sup>2
            = qdot p p + qdot q q - 2 * qdot p q"
    by (simp add: p q power2_eq_square algebra_simps)
  have pl': "(pw + qw)\<^sup>2 + (px + qx)\<^sup>2 + (py + qy)\<^sup>2 + (pz + qz)\<^sup>2
            = qdot p p + qdot q q + 2 * qdot p q"
    by (simp add: p q power2_eq_square algebra_simps)
  from m pl show ?thesis unfolding m' pl' assms by linarith
qed

lemma slerp_trig:
  fixes t \<theta> :: real
  assumes s: "sin \<theta> \<noteq> 0"
  shows "sin ((1 - t) * \<theta>) / sin \<theta> + sin (t * \<theta>) / sin \<theta> * cos \<theta> = cos (t * \<theta>)"
proof -
  have e: "(1 - t) * \<theta> = \<theta> - t * \<theta>" by (simp add: algebra_simps)
  have "sin ((1 - t) * \<theta>) + sin (t * \<theta>) * cos \<theta> = sin \<theta> * cos (t * \<theta>)"
    unfolding e sin_diff by (simp add: algebra_simps)
  then have "(sin ((1 - t) * \<theta>) + sin (t * \<theta>) * cos \<theta>) / sin \<theta> = cos (t * \<theta>)"
    using s by simp
  then show ?thesis by (simp add: add_divide_distrib)
qed

lemma slerp_norm:
  fixes t \<theta> :: real
  assumes s: "sin \<theta> \<noteq> 0"
  shows "(sin ((1 - t) * \<theta>) / sin \<theta>) * (sin ((1 - t) * \<theta>) / sin \<theta>)
         + 2 * ((sin ((1 - t) * \<theta>) / sin \<theta>) * (sin (t * \<theta>) / sin \<theta>)) * cos \<theta>
         + (sin (t * \<theta>) / sin \<theta>) * (sin (t * \<theta>) / sin \<theta>) = 1"
proof -
  define A where "A = (1 - t) * \<theta>"
  define B where "B = t * \<theta>"
  have th: "\<theta> = A + B" by (simp add: A_def B_def algebra_simps)
  have cA: "cos A * cos A = 1 - sin A * sin A"
    using sin_cos_squared_add[of A] by (simp add: power2_eq_square)
  have cB: "cos B * cos B = 1 - sin B * sin B"
    using sin_cos_squared_add[of B] by (simp add: power2_eq_square)
  have "sin A * sin A + 2 * (sin A * sin B) * cos (A + B) + sin B * sin B
        = sin (A + B) * sin (A + B)"
  proof -
    have l: "sin A * sin A + 2 * (sin A * sin B) * cos (A + B) + sin B * sin B
          = sin A * sin A + sin B * sin B + 2 * (sin A * cos A) * (sin B * cos B)
            - 2 * (sin A * sin A) * (sin B * sin B)"
      unfolding cos_add by (simp add: algebra_simps)
    have r: "sin (A + B) * sin (A + B)
          = (sin A * sin A) * (cos B * cos B) + (cos A * cos A) * (sin B * sin B)
            + 2 * (sin A * cos A) * (sin B * cos B)"
      unfolding sin_add by (simp add: algebra_simps)
    show ?thesis unfolding l r cA cB by (simp add: algebra_simps)
  qed
  then have "(sin A * sin A + 2 * (sin A * sin B) * cos \<theta> + sin B * sin B) / (sin \<theta> * sin \<theta>) = 1"
    using s unfolding th by simp
  then show ?thesis
    unfolding A_def[symmetric] B_def[symmetric] by (simp add: add_divide_distrib algebra_simps)
qed

lemma arccos_range:
  fixes c :: real
  assumes "0 \<le> c" and "c \<le> 1"
  shows "0 \<le> arccos c" and "arccos c \<le> pi / 2" and "cos (arccos c) = c"
proof -
  from assms show "0 \<le> arccos c" by (intro arccos_lbound) linarith+
  from assms show "arccos c \<le> pi / 2" by (intro arccos_le_pi2) linarith+
  from assms show "cos (arccos c) = c" by (intro cos_arccos) linarith+
qed

lemma sin_zero_angle:
  fixes x :: real
  assumes "0 \<le> x" and "x \<le> pi / 2" and "sin x = 0"
  shows "x = 0"
proof (rule ccontr)
  assume "x \<noteq> 0"
  with assms have "0 < x" "x < pi" using pi_gt_zero by linarith+
  then have "0 < sin x" by (rule sin_gt_zero)
  with assms show False by simp
qed

lemma slerp_spec_zero: "sin (arccos (qdot p q)) = 0 \<Longrightarrow> slerp_spec p q t = p"
  by (simp add: slerp_spec_def)

lemma slerp_spec_comb:
  "sin (arccos (qdot p q)) \<noteq> 0 \<Longrightarrow>
     slerp_spec p q t =
       qadd (qscale (sin ((1 - t) * arccos (qdot p q)) / sin (arccos (qdot p q))) p)
            (qscale (sin (t * arccos (qdot p q)) / sin (arccos (qdot p q))) q)"
  by (simp add: slerp_spec_def Let_def)


lemma slerp_spec_dot:
  assumes up: "qdot p p = 1" and uq: "qdot q q = 1" and c: "0 \<le> qdot p q"
  shows "qdot (slerp_spec p q t) p = cos (t * arccos (qdot p q))"
proof -
  have c1: "qdot p q \<le> 1" using unit_dot_bound[OF up uq] by linarith
  note r = arccos_range[OF c c1]
  show ?thesis
  proof (cases "sin (arccos (qdot p q)) = 0")
    case True
    have z: "arccos (qdot p q) = 0" using r(1,2) True by (rule sin_zero_angle)
    show ?thesis unfolding slerp_spec_zero[OF True] z up by simp
  next
    case False
    have "qdot (slerp_spec p q t) p =
        sin ((1 - t) * arccos (qdot p q)) / sin (arccos (qdot p q)) * qdot p p
        + sin (t * arccos (qdot p q)) / sin (arccos (qdot p q)) * qdot q p"
      unfolding slerp_spec_comb[OF False] by (rule qdot_comb_left)
    also have "\<dots> = sin ((1 - t) * arccos (qdot p q)) / sin (arccos (qdot p q))
        + sin (t * arccos (qdot p q)) / sin (arccos (qdot p q)) * cos (arccos (qdot p q))"
      unfolding up r(3) qdot_commute[of q p] by simp
    also have "\<dots> = cos (t * arccos (qdot p q))" by (rule slerp_trig[OF False])
    finally show ?thesis .
  qed
qed


lemma slerp_spec_unit:
  assumes up: "qdot p p = 1" and uq: "qdot q q = 1" and c: "0 \<le> qdot p q"
  shows "qdot (slerp_spec p q t) (slerp_spec p q t) = 1"
proof -
  have c1: "qdot p q \<le> 1" using unit_dot_bound[OF up uq] by linarith
  note r = arccos_range[OF c c1]
  show ?thesis
  proof (cases "sin (arccos (qdot p q)) = 0")
    case True
    show ?thesis unfolding slerp_spec_zero[OF True] by (rule up)
  next
    case False
    let ?a = "sin ((1 - t) * arccos (qdot p q)) / sin (arccos (qdot p q))"
    let ?b = "sin (t * arccos (qdot p q)) / sin (arccos (qdot p q))"
    have "qdot (slerp_spec p q t) (slerp_spec p q t) =
        ?a * ?a * qdot p p + 2 * (?a * ?b) * qdot p q + ?b * ?b * qdot q q"
      unfolding slerp_spec_comb[OF False] by (rule qdot_comb_self)
    also have "\<dots> = ?a * ?a + 2 * (?a * ?b) * cos (arccos (qdot p q)) + ?b * ?b"
      unfolding up uq r(3) by simp
    also have "\<dots> = 1" by (rule slerp_norm[OF False])
    finally show ?thesis .
  qed
qed

lemma slerp_spec_ang:
  assumes up: "qdot p p = 1" and uq: "qdot q q = 1" and c: "0 \<le> qdot p q"
    and t: "0 \<le> t" "t \<le> 1"
  shows "0 \<le> qdot (slerp_spec p q t) p" and "ang (slerp_spec p q t) p = t * ang q p"
proof -
  have c1: "qdot p q \<le> 1" using unit_dot_bound[OF up uq] by linarith
  note r = arccos_range[OF c c1]
  let ?x = "t * arccos (qdot p q)"
  have lo: "0 \<le> ?x" using t(1) r(1) by (rule mult_nonneg_nonneg)
  have "?x \<le> 1 * arccos (qdot p q)" using t(2) r(1) by (rule mult_right_mono)
  with r(2) have hi: "?x \<le> pi / 2" by simp
  have cs: "0 \<le> cos ?x" using lo hi by (intro cos_ge_zero) linarith+
  show "0 \<le> qdot (slerp_spec p q t) p"
    unfolding slerp_spec_dot[OF up uq c] by (rule cs)
  have ac: "arccos (cos ?x) = ?x"
    using lo hi pi_gt_zero by (intro arccos_cos) linarith+
  have l: "ang (slerp_spec p q t) p = 2 * ?x"
    unfolding ang_def slerp_spec_dot[OF up uq c] abs_of_nonneg[OF cs] ac ..
  have rr: "ang q p = 2 * arccos (qdot p q)"
    unfolding ang_def qdot_commute[of q p] abs_of_nonneg[OF c] ..
  show "ang (slerp_spec p q t) p = t * ang q p" unfolding l rr by simp
qed


lemma ang_qneg: "ang (qneg q) p = ang q p"
  unfolding ang_def qdot_qneg_left by simp

lemma smooth_quat_slerp:
  assumes L: "slerp L = slerp_spec"
    and up: "qdot qPre qPre = 1" and uq: "qdot qCur qCur = 1"
    and a: "0 \<le> a" "a \<le> 1"
  shows "qdot (smooth_quat L a qPre qCur) (smooth_quat L a qPre qCur) = 1"
    and "0 \<le> qdot (smooth_quat L a qPre qCur) qPre"
    and "ang (smooth_quat L a qPre qCur) qPre = a * ang qCur qPre"
proof -
  define qc where "qc = (if qdot qCur qPre < 0 then qneg qCur else qCur)"
  have out: "smooth_quat L a qPre qCur = slerp_spec qPre qc a"
    unfolding smooth_quat_def qc_def L by (simp add: Let_def)
  have uc: "qdot qc qc = 1" unfolding qc_def using uq by (simp add: qdot_qneg_self)
  have "0 \<le> qdot qc qPre" unfolding qc_def by (simp add: qdot_qneg_left)
  then have c: "0 \<le> qdot qPre qc" by (simp only: qdot_commute[of qPre qc])
  have an: "ang qc qPre = ang qCur qPre" unfolding qc_def by (simp add: ang_qneg)
  show "qdot (smooth_quat L a qPre qCur) (smooth_quat L a qPre qCur) = 1"
    unfolding out by (rule slerp_spec_unit[OF up uc c])
  show "0 \<le> qdot (smooth_quat L a qPre qCur) qPre"
    unfolding out by (rule slerp_spec_ang(1)[OF up uc c a])
  show "ang (smooth_quat L a qPre qCur) qPre = a * ang qCur qPre"
    unfolding out an[symmetric] by (rule slerp_spec_ang(2)[OF up uc c a])
qed

text \<open>
  C6: let \<^verbatim>\<open>glm::slerp\<close> be the SLERP of the specification, the previous and the raw
  quaternion unit quaternions, and \<^verbatim>\<open>alphaPose\<close> in [0, 1]. The quaternion
  \<^verbatim>\<open>smooth\<close> computes is a unit quaternion on the side of the previous one, and its
  angular distance from the previous one is at most \<^verbatim>\<open>alphaPose\<close> times the angular
  distance, along the shortest arc, between the raw rotation and the previous one. The same
  bound holds when the raw quaternion is replaced by its antipode, and when the antipode is
  fed in the next frame, the previous quaternion being the output of this one.
\<close>

theorem slerp_step_bound:
  assumes "slerp L = slerp_spec"
    and "qdot qPre qPre = 1" and "qdot qCur qCur = 1"
    and "0 \<le> a" and "a \<le> 1"
  shows "qdot (smooth_quat L a qPre qCur) (smooth_quat L a qPre qCur) = 1 \<and>
         0 \<le> qdot (smooth_quat L a qPre qCur) qPre \<and>
         ang (smooth_quat L a qPre qCur) qPre \<le> a * ang qCur qPre \<and>
         ang (smooth_quat L a qPre (qneg qCur)) qPre \<le> a * ang qCur qPre \<and>
         ang (smooth_quat L a (smooth_quat L a qPre qCur) (qneg qCur)) (smooth_quat L a qPre qCur)
           \<le> a * ang qCur (smooth_quat L a qPre qCur)"
proof -
  note s = smooth_quat_slerp[OF assms]
  have un: "qdot (qneg qCur) (qneg qCur) = 1" using assms(3) by (simp add: qdot_qneg_self)
  have 1: "ang (smooth_quat L a qPre (qneg qCur)) qPre = a * ang qCur qPre"
    using smooth_quat_slerp(3)[OF assms(1,2) un assms(4,5)] by (simp add: ang_qneg)
  have 2: "ang (smooth_quat L a (smooth_quat L a qPre qCur) (qneg qCur)) (smooth_quat L a qPre qCur)
        = a * ang qCur (smooth_quat L a qPre qCur)"
    using smooth_quat_slerp(3)[OF assms(1) s(1) un assms(4,5)] by (simp add: ang_qneg)
  from s 1 2 show ?thesis by simp
qed

theorem slerp_step_bound_witness:
  "slerp (flat_extern\<lparr>slerp := slerp_spec\<rparr>) = slerp_spec \<and>
   qdot (1, 0, 0, 0) (1, 0, 0, 0) = 1 \<and>
   qdot (- 3 / 5, 4 / 5, 0, 0) (- 3 / 5, 4 / 5, 0, 0) = 1 \<and>
   (0::real) \<le> 1 / 4 \<and> (1 / 4 :: real) \<le> 1 \<and>
   ang (smooth_quat (flat_extern\<lparr>slerp := slerp_spec\<rparr>) (1 / 4) (1, 0, 0, 0) (- 3 / 5, 4 / 5, 0, 0))
       (1, 0, 0, 0)
     \<le> 1 / 4 * ang (- 3 / 5, 4 / 5, 0, 0) (1, 0, 0, 0)"
proof -
  have 1: "slerp (flat_extern\<lparr>slerp := slerp_spec\<rparr>) = slerp_spec" by simp
  have 2: "qdot (1, 0, 0, 0) (1, 0, 0, 0) = 1" by simp
  have 3: "qdot (- 3 / 5, 4 / 5, 0, 0) (- 3 / 5, 4 / 5, 0, 0) = 1" by simp
  have 4: "(0::real) \<le> 1 / 4" "(1 / 4 :: real) \<le> 1" by simp_all
  from slerp_step_bound[OF 1 2 3 4] 1 2 3 4 show ?thesis by blast
qed

section \<open>Maze::generate\<close>

subsection \<open>The cells of the grid\<close>

lemma in_grid_bounds:
  assumes "wf_maze m" "in_grid m p"
  shows "0 \<le> snd p * w m + fst p" "snd p * w m + fst p < w m * h m"
proof -
  from assms have W: "1 \<le> w m" and x: "0 \<le> fst p" "fst p < w m" and y: "0 \<le> snd p" "snd p \<le> h m - 1"
    by (auto simp: wf_maze_def in_grid_def)
  show "0 \<le> snd p * w m + fst p" using x y W by simp
  have "snd p * w m \<le> (h m - 1) * w m" using y W by (intro mult_right_mono) auto
  then show "snd p * w m + fst p < w m * h m" using x by (simp add: algebra_simps)
qed

lemma idx_less: "wf_maze m \<Longrightarrow> in_grid m p \<Longrightarrow> idx m p < length (grid m)"
  using in_grid_bounds[of m p] by (simp add: idx_def wf_maze_def nat_less_iff)

lemma at_index_in_grid:
  assumes "wf_maze m" "in_grid m (x, y)"
  shows "at_index m x y = Some (idx m (x, y))"
proof -
  from assms(2) have c: "\<not> x < 0" "\<not> x \<ge> w m" "\<not> y < 0" "\<not> y \<ge> h m"
    by (auto simp: in_grid_def)
  from in_grid_bounds[OF assms] assms(1) show ?thesis
    by (simp add: at_index_def c idx_def wf_maze_def)
qed

lemma maze_at_in_grid:
  "wf_maze m \<Longrightarrow> in_grid m (x, y) \<Longrightarrow> maze_at m x y = Some (cell_of m (x, y))"
  by (simp add: maze_at_def at_index_in_grid cell_of_def)

lemma idx_inj:
  assumes "wf_maze m" "in_grid m p" "in_grid m q" "idx m p = idx m q"
  shows "p = q"
proof -
  from assms(1) have W: "0 < w m" by (simp add: wf_maze_def)
  from in_grid_bounds(1)[OF assms(1,2)] in_grid_bounds(1)[OF assms(1,3)] assms(4)
  have e: "snd p * w m + fst p = snd q * w m + fst q" by (simp add: idx_def)
  from assms(2,3) have b: "0 \<le> fst p" "fst p < w m" "0 \<le> fst q" "fst q < w m"
    by (auto simp: in_grid_def)
  have "(snd p * w m + fst p) div w m = snd p" "(snd q * w m + fst q) div w m = snd q"
    using b W by (simp_all add: div_pos_pos_trivial)
  with e have s: "snd p = snd q" by simp
  with e have "fst p = fst q" by simp
  with s show ?thesis by (simp add: prod_eq_iff)
qed

lemma set_cell_in_grid:
  assumes "wf_maze m" "in_grid m (x, y)"
  shows "set_cell m x y f = Some (m\<lparr>grid := (grid m)[idx m (x, y) := f (cell_of m (x, y))]\<rparr>)"
  by (simp add: set_cell_def at_index_in_grid[OF assms] cell_of_def)

lemma idx_grid_update: "idx (m\<lparr>grid := gr\<rparr>) p = idx m p"
  by (simp add: idx_def)

lemma cell_of_update:
  assumes "wf_maze m" "in_grid m p" "in_grid m q"
  shows "cell_of (m\<lparr>grid := (grid m)[idx m p := v]\<rparr>) q = (if q = p then v else cell_of m q)"
proof -
  note i = idx_grid_update
  show ?thesis
  proof (cases "q = p")
    case True
    then show ?thesis using idx_less[OF assms(1,2)] by (simp add: cell_of_def i)
  next
    case False
    then have "idx m p \<noteq> idx m q" using idx_inj[OF assms(1) assms(2) assms(3)] by blast
    then show ?thesis using False by (simp add: cell_of_def i)
  qed
qed

lemma wf_update: "wf_maze m \<Longrightarrow> wf_maze (m\<lparr>grid := (grid m)[i := v]\<rparr>)"
  by (simp add: wf_maze_def)

lemma in_grid_update: "in_grid (m\<lparr>grid := gr\<rparr>) p = in_grid m p"
  by (simp add: in_grid_def)

subsection \<open>One step of the carving\<close>

lemma neighbors_spec:
  assumes "wf_maze m"
  shows "\<exists>ns. neighbors m cx cy ds = Some ns \<and>
           (\<forall>q. q \<in> set ns \<longleftrightarrow>
              (\<exists>d \<in> set ds. q = (cx + fst d, cy + snd d)) \<and> in_grid m q \<and> \<not> visited (cell_of m q))"
proof (induction ds)
  case Nil
  then show ?case by simp
next
  case (Cons d ds)
  obtain dx dy where d: "d = (dx, dy)" by (cases d)
  from Cons obtain ns where ns: "neighbors m cx cy ds = Some ns"
    and S: "\<And>q. q \<in> set ns \<longleftrightarrow>
              (\<exists>d \<in> set ds. q = (cx + fst d, cy + snd d)) \<and> in_grid m q \<and> \<not> visited (cell_of m q)"
    by blast
  show ?case
  proof (cases "in_grid m (cx + dx, cy + dy)")
    case True
    then have g: "cx + dx \<ge> 0 \<and> cx + dx < w m \<and> cy + dy \<ge> 0 \<and> cy + dy < h m"
      by (simp add: in_grid_def)
    have e: "neighbors m cx cy (d # ds) =
          Some (if \<not> visited (cell_of m (cx + dx, cy + dy)) then (cx + dx, cy + dy) # ns else ns)"
      using g ns maze_at_in_grid[OF assms True] by (simp add: d Let_def)
    show ?thesis unfolding e using S True by (auto simp: d)
  next
    case False
    then have g: "\<not> (cx + dx \<ge> 0 \<and> cx + dx < w m \<and> cy + dy \<ge> 0 \<and> cy + dy < h m)"
      by (simp add: in_grid_def)
    have e: "neighbors m cx cy (d # ds) = Some ns"
      using False ns by (auto simp: d Let_def in_grid_def)
    show ?thesis unfolding e using S False by (auto simp: d)
  qed
qed

lemma neighbors_dirs:
  assumes "wf_maze m"
  shows "\<exists>ns. neighbors m cx cy dirs = Some ns \<and>
           (\<forall>q. q \<in> set ns \<longleftrightarrow> adjacent (cx, cy) q \<and> in_grid m q \<and> \<not> visited (cell_of m q))"
proof -
  from neighbors_spec[OF assms, of cx cy dirs] obtain ns where
    ns: "neighbors m cx cy dirs = Some ns" and
    S: "\<And>q. q \<in> set ns \<longleftrightarrow>
              (\<exists>d \<in> set dirs. q = (cx + fst d, cy + snd d)) \<and> in_grid m q \<and> \<not> visited (cell_of m q)"
    by blast
  have "\<And>q. (\<exists>d \<in> set dirs. q = (cx + fst d, cy + snd d)) \<longleftrightarrow> adjacent (cx, cy) q"
    by (auto simp: dirs_def adjacent_def)
  with ns S show ?thesis by simp
qed

lemma adjacent_neq: "adjacent p q \<Longrightarrow> p \<noteq> q"
  by (auto simp: adjacent_def prod_eq_iff)

lemma carve_grid:
  assumes wf: "wf_maze m" and c: "in_grid m (cx, cy)" and n: "in_grid m (nx, ny)"
    and a: "adjacent (cx, cy) (nx, ny)"
  shows "carve m (cx, cy) (nx, ny) =
           Some (m\<lparr>grid := (grid m)[idx m (cx, cy) := open_toward (cx, cy) (nx, ny) (cell_of m (cx, cy)),
                                    idx m (nx, ny) := (open_toward (nx, ny) (cx, cy) (cell_of m (nx, ny)))\<lparr>visited := True\<rparr>]\<rparr>)"
proof -
  let ?c = "(cx, cy)" and ?n = "(nx, ny)"
  have neq: "idx m ?c \<noteq> idx m ?n" using idx_inj[OF wf c n] adjacent_neq[OF a] by blast
  have lc: "idx m ?c < length (grid m)" and ln: "idx m ?n < length (grid m)"
    using idx_less[OF wf] c n by auto
  have step1: "\<And>f. set_cell m cx cy f = Some (m\<lparr>grid := (grid m)[idx m ?c := f (cell_of m ?c)]\<rparr>)"
    using set_cell_in_grid[OF wf c] by simp
  have step2: "\<And>v f. set_cell (m\<lparr>grid := (grid m)[idx m ?c := v]\<rparr>) nx ny f =
      Some (m\<lparr>grid := (grid m)[idx m ?c := v, idx m ?n := f (cell_of m ?n)]\<rparr>)"
  proof -
    fix v f
    let ?m1 = "m\<lparr>grid := (grid m)[idx m ?c := v]\<rparr>"
    have w1: "wf_maze ?m1" by (rule wf_update[OF wf])
    have n1: "in_grid ?m1 ?n" using n by (simp add: in_grid_update)
    have c1: "cell_of ?m1 ?n = cell_of m ?n"
      using cell_of_update[OF wf c n, of v] adjacent_neq[OF a] by auto
    show "set_cell ?m1 nx ny f = Some (m\<lparr>grid := (grid m)[idx m ?c := v, idx m ?n := f (cell_of m ?n)]\<rparr>)"
      using set_cell_in_grid[OF w1 n1, of f] by (simp add: c1 idx_grid_update)
  qed
  have step3: "\<And>v u f. set_cell (m\<lparr>grid := (grid m)[idx m ?c := v, idx m ?n := u]\<rparr>) nx ny f =
      Some (m\<lparr>grid := (grid m)[idx m ?c := v, idx m ?n := f u]\<rparr>)"
  proof -
    fix v u f
    let ?m2 = "m\<lparr>grid := (grid m)[idx m ?c := v, idx m ?n := u]\<rparr>"
    have w2: "wf_maze ?m2" using wf by (simp add: wf_maze_def)
    have n2: "in_grid ?m2 ?n" using n by (simp add: in_grid_update)
    have c2: "cell_of ?m2 ?n = u"
      using ln by (simp add: cell_of_def idx_grid_update)
    show "set_cell ?m2 nx ny f = Some (m\<lparr>grid := (grid m)[idx m ?c := v, idx m ?n := f u]\<rparr>)"
      using set_cell_in_grid[OF w2 n2, of f] by (simp add: c2 idx_grid_update)
  qed
  from a have dir: "cx < nx \<or> nx < cx \<or> (\<not> cx < nx \<and> \<not> nx < cx \<and> cy < ny)
      \<or> (\<not> cx < nx \<and> \<not> nx < cx \<and> \<not> cy < ny \<and> ny < cy)"
    by (auto simp: adjacent_def)
  then show ?thesis
    by (elim disjE) (simp_all add: carve_def step1 step2 step3 open_toward_def)
qed

lemma carve_carved:
  assumes "wf_maze m" "in_grid m c" "in_grid m n" "adjacent c n"
  shows "carve m c n = Some (carved m c n)"
  using carve_grid[of m "fst c" "snd c" "fst n" "snd n"] assms by (simp add: carved_def)

lemma carved_shape:
  "w (carved m c n) = w m" "h (carved m c n) = h m"
  "length (grid (carved m c n)) = length (grid m)"
  "in_grid (carved m c n) p = in_grid m p"
  "idx (carved m c n) p = idx m p"
  by (simp_all add: carved_def in_grid_def idx_def)

lemma wf_carved: "wf_maze m \<Longrightarrow> wf_maze (carved m c n)"
  by (simp add: wf_maze_def carved_shape)

lemma cell_of_carved:
  assumes wf: "wf_maze m" and c: "in_grid m c" and n: "in_grid m n" and a: "adjacent c n"
    and q: "in_grid m q"
  shows "cell_of (carved m c n) q =
           (if q = n then (open_toward n c (cell_of m n))\<lparr>visited := True\<rparr>
            else if q = c then open_toward c n (cell_of m c)
            else cell_of m q)"
proof -
  have lc: "idx m c < length (grid m)" and ln: "idx m n < length (grid m)"
    using idx_less[OF wf] c n by auto
  have neq: "idx m c \<noteq> idx m n" using idx_inj[OF wf c n] adjacent_neq[OF a] by blast
  have qn: "q \<noteq> n \<Longrightarrow> idx m n \<noteq> idx m q" using idx_inj[OF wf n q] by blast
  have qc: "q \<noteq> c \<Longrightarrow> idx m c \<noteq> idx m q" using idx_inj[OF wf c q] by blast
  show ?thesis
    using lc ln neq qn qc adjacent_neq[OF a]
    by (auto simp: cell_of_def carved_def idx_grid_update)
qed

lemma flags_carved:
  assumes wf: "wf_maze m" and c: "in_grid m c" and n: "in_grid m n" and a: "adjacent c n"
    and q: "in_grid m q"
  shows "visited (cell_of (carved m c n) q) \<longleftrightarrow> visited (cell_of m q) \<or> q = n"
    and "wE (cell_of (carved m c n) q) \<longleftrightarrow>
           wE (cell_of m q) \<and> \<not> (q = c \<and> fst n > fst c) \<and> \<not> (q = n \<and> fst c > fst n)"
    and "wW (cell_of (carved m c n) q) \<longleftrightarrow>
           wW (cell_of m q) \<and> \<not> (q = c \<and> fst n < fst c) \<and> \<not> (q = n \<and> fst c < fst n)"
    and "wS (cell_of (carved m c n) q) \<longleftrightarrow>
           wS (cell_of m q) \<and> \<not> (q = c \<and> snd n > snd c) \<and> \<not> (q = n \<and> snd c > snd n)"
    and "wN (cell_of (carved m c n) q) \<longleftrightarrow>
           wN (cell_of m q) \<and> \<not> (q = c \<and> snd n < snd c) \<and> \<not> (q = n \<and> snd c < snd n)"
  using a adjacent_neq[OF a]
  by (auto simp: cell_of_carved[OF wf c n a q] open_toward_def adjacent_def)

subsection \<open>The invariant is kept\<close>

lemma passage_carved:
  assumes wf: "wf_maze m" and c: "in_grid m c" and n: "in_grid m n" and a: "adjacent c n"
  shows "passage m p q \<Longrightarrow> passage (carved m c n) p q"
    and "passage (carved m c n) c n"
proof -
  note fl = flags_carved[OF wf c n a]
  show "passage m p q \<Longrightarrow> passage (carved m c n) p q"
    unfolding passage_def carved_shape
    by (auto simp: fl)
  show "passage (carved m c n) c n"
    unfolding passage_def carved_shape
    using a c n adjacent_neq[OF a] by (auto simp: fl adjacent_def)
qed

lemma reachable_carved:
  assumes wf: "wf_maze m" and c: "in_grid m c" and n: "in_grid m n" and a: "adjacent c n"
  shows "reachable m p \<Longrightarrow> reachable (carved m c n) p"
proof (induction rule: reachable.induct)
  case start
  then show ?case by (rule reachable.start)
next
  case (step p q)
  from step.IH passage_carved(1)[OF wf c n a step.hyps(2)] show ?case
    by (rule reachable.step)
qed

lemma consistent_carved:
  assumes wf: "wf_maze m" and c: "in_grid m c" and n: "in_grid m n" and a: "adjacent c n"
    and wc: "walls_consistent m"
  shows "walls_consistent (carved m c n)"
proof -
  note fl = flags_carved[OF wf c n a]
  obtain cx cy where cc: "c = (cx, cy)" by (cases c)
  obtain nx ny where nn: "n = (nx, ny)" by (cases n)
  show ?thesis
    unfolding walls_consistent_def carved_shape
  proof (intro allI impI)
    fix x y
    assume g: "in_grid m (x, y)"
    from wc g have
      E: "wE (cell_of m (x, y)) = (if x + 1 < w m then wW (cell_of m (x + 1, y)) else True)" and
      S: "wS (cell_of m (x, y)) = (if y + 1 < h m then wN (cell_of m (x, y + 1)) else True)" and
      W: "x = 0 \<longrightarrow> wW (cell_of m (x, y))" and
      N: "y = 0 \<longrightarrow> wN (cell_of m (x, y))"
      by (auto simp: walls_consistent_def)
    have gE: "x + 1 < w m \<Longrightarrow> in_grid m (x + 1, y)" using g by (simp add: in_grid_def)
    have gS: "y + 1 < h m \<Longrightarrow> in_grid m (x, y + 1)" using g by (simp add: in_grid_def)
    have 1: "wE (cell_of (carved m c n) (x, y)) =
          (if x + 1 < w m then wW (cell_of (carved m c n) (x + 1, y)) else True)"
      using E a c n g gE unfolding cc nn
      by (cases "x + 1 < w m") (auto simp: fl[unfolded cc nn] adjacent_def in_grid_def)
    have 2: "wS (cell_of (carved m c n) (x, y)) =
          (if y + 1 < h m then wN (cell_of (carved m c n) (x, y + 1)) else True)"
      using S a c n g gS unfolding cc nn
      by (cases "y + 1 < h m") (auto simp: fl[unfolded cc nn] adjacent_def in_grid_def)
    have 3: "x = 0 \<longrightarrow> wW (cell_of (carved m c n) (x, y))"
      using W a c n g unfolding cc nn
      by (auto simp: fl[unfolded cc nn] adjacent_def in_grid_def)
    have 4: "y = 0 \<longrightarrow> wN (cell_of (carved m c n) (x, y))"
      using N a c n g unfolding cc nn
      by (auto simp: fl[unfolded cc nn] adjacent_def in_grid_def)
    from 1 2 3 4 show "(wE (cell_of (carved m c n) (x, y)) =
          (if x + 1 < w m then wW (cell_of (carved m c n) (x + 1, y)) else True)) \<and>
       (wS (cell_of (carved m c n) (x, y)) =
          (if y + 1 < h m then wN (cell_of (carved m c n) (x, y + 1)) else True)) \<and>
       (x = 0 \<longrightarrow> wW (cell_of (carved m c n) (x, y))) \<and>
       (y = 0 \<longrightarrow> wN (cell_of (carved m c n) (x, y)))" by blast
  qed
qed

lemma count_update:
  "i < length xs \<Longrightarrow>
     length (filter P (xs[i := v])) + (if P (xs ! i) then 1 else 0) =
     length (filter P xs) + (if P v then 1 else 0)"
proof (induction xs arbitrary: i)
  case Nil
  then show ?case by simp
next
  case (Cons x xs)
  then show ?case by (cases i) auto
qed

lemma visited_open_toward: "visited (open_toward p q c) = visited c"
  by (simp add: open_toward_def)

lemma count_carved:
  assumes wf: "wf_maze m" and c: "in_grid m c" and n: "in_grid m n" and a: "adjacent c n"
  shows "length (filter P (grid (carved m c n)))
           + (if P (cell_of m c) then 1 else 0) + (if P (cell_of m n) then 1 else 0) =
         length (filter P (grid m))
           + (if P (open_toward c n (cell_of m c)) then 1 else 0)
           + (if P ((open_toward n c (cell_of m n))\<lparr>visited := True\<rparr>) then 1 else 0)"
proof -
  have lc: "idx m c < length (grid m)" and ln: "idx m n < length (grid m)"
    using idx_less[OF wf] c n by auto
  have neq: "idx m c \<noteq> idx m n" using idx_inj[OF wf c n] adjacent_neq[OF a] by blast
  let ?g1 = "(grid m)[idx m c := open_toward c n (cell_of m c)]"
  have 1: "length (filter P ?g1) + (if P (cell_of m c) then 1 else 0) =
      length (filter P (grid m)) + (if P (open_toward c n (cell_of m c)) then 1 else 0)"
    using count_update[OF lc, of P] by (simp add: cell_of_def)
  have ln1: "idx m n < length ?g1" using ln by simp
  have e: "?g1 ! idx m n = cell_of m n" using neq by (simp add: cell_of_def)
  have 2: "length (filter P (grid (carved m c n))) + (if P (cell_of m n) then 1 else 0) =
      length (filter P ?g1) + (if P ((open_toward n c (cell_of m n))\<lparr>visited := True\<rparr>) then 1 else 0)"
    using count_update[OF ln1, of P] unfolding e by (simp add: carved_def)
  from 1 2 show ?thesis by simp
qed

lemma n_visited_carved:
  assumes wf: "wf_maze m" and c: "in_grid m c" and n: "in_grid m n" and a: "adjacent c n"
    and u: "\<not> visited (cell_of m n)"
  shows "n_visited (carved m c n) = n_visited m + 1"
  using count_carved[OF wf c n a, of visited] u
  by (simp add: n_visited_def visited_open_toward)

lemma n_passages_carved:
  assumes wf: "wf_maze m" and c: "in_grid m c" and n: "in_grid m n" and a: "adjacent c n"
    and cl: "closed_cell (cell_of m n)" and wc: "walls_consistent m"
  shows "n_passages (carved m c n) = n_passages m + 1"
proof -
  obtain cx cy where cc: "c = (cx, cy)" by (cases c)
  obtain nx ny where nn: "n = (nx, ny)" by (cases n)
  from wc c have
    E: "wE (cell_of m (cx, cy)) = (if cx + 1 < w m then wW (cell_of m (cx + 1, cy)) else True)" and
    S: "wS (cell_of m (cx, cy)) = (if cy + 1 < h m then wN (cell_of m (cx, cy + 1)) else True)"
    by (auto simp: walls_consistent_def cc)
  have fE: "nx > cx \<Longrightarrow> wE (cell_of m c)"
    using E a n cl by (auto simp: cc nn adjacent_def in_grid_def closed_cell_def)
  have fS: "ny > cy \<Longrightarrow> wS (cell_of m c)"
    using S a n cl by (auto simp: cc nn adjacent_def in_grid_def closed_cell_def)
  from a have dir: "cx < nx \<and> ny = cy \<or> nx < cx \<and> ny = cy \<or> nx = cx \<and> cy < ny \<or> nx = cx \<and> ny < cy"
    by (auto simp: adjacent_def cc nn)
  have cE: "length (filter (\<lambda>c. \<not> wE c) (grid (carved m c n))) + (if nx \<noteq> cx then 0 else 1)
      = length (filter (\<lambda>c. \<not> wE c) (grid m)) + 1"
    using count_carved[OF wf c n a, of "\<lambda>c. \<not> wE c"] dir fE cl
    by (auto simp: open_toward_def cc nn closed_cell_def)
  have cS: "length (filter (\<lambda>c. \<not> wS c) (grid (carved m c n))) + (if nx \<noteq> cx then 1 else 0)
      = length (filter (\<lambda>c. \<not> wS c) (grid m)) + 1"
    using count_carved[OF wf c n a, of "\<lambda>c. \<not> wS c"] dir fS cl
    by (auto simp: open_toward_def cc nn closed_cell_def)
  from cE cS show ?thesis by (auto simp: n_passages_def split: if_splits)
qed

lemma opened_walls:
  assumes wf: "wf_maze m" and c: "in_grid m c" and n: "in_grid m n" and a: "adjacent c n"
    and q: "in_grid m q"
  shows "\<not> wE (cell_of (carved m c n) q) \<Longrightarrow>
           \<not> wE (cell_of m q) \<or> (q = c \<and> n = (fst q + 1, snd q)) \<or> (q = n \<and> c = (fst q + 1, snd q))"
    and "\<not> wW (cell_of (carved m c n) q) \<Longrightarrow>
           \<not> wW (cell_of m q) \<or> (q = c \<and> n = (fst q - 1, snd q)) \<or> (q = n \<and> c = (fst q - 1, snd q))"
    and "\<not> wS (cell_of (carved m c n) q) \<Longrightarrow>
           \<not> wS (cell_of m q) \<or> (q = c \<and> n = (fst q, snd q + 1)) \<or> (q = n \<and> c = (fst q, snd q + 1))"
    and "\<not> wN (cell_of (carved m c n) q) \<Longrightarrow>
           \<not> wN (cell_of m q) \<or> (q = c \<and> n = (fst q, snd q - 1)) \<or> (q = n \<and> c = (fst q, snd q - 1))"
proof -
  note fl = flags_carved[OF wf c n a q]
  from a have dir: "(fst n = fst c + 1 \<and> snd n = snd c) \<or> (fst n = fst c - 1 \<and> snd n = snd c) \<or>
      (fst n = fst c \<and> snd n = snd c + 1) \<or> (fst n = fst c \<and> snd n = snd c - 1)"
    by (auto simp: adjacent_def)
  show "\<not> wE (cell_of (carved m c n) q) \<Longrightarrow>
           \<not> wE (cell_of m q) \<or> (q = c \<and> n = (fst q + 1, snd q)) \<or> (q = n \<and> c = (fst q + 1, snd q))"
    using dir by (auto simp: fl(2) prod_eq_iff)
  show "\<not> wW (cell_of (carved m c n) q) \<Longrightarrow>
           \<not> wW (cell_of m q) \<or> (q = c \<and> n = (fst q - 1, snd q)) \<or> (q = n \<and> c = (fst q - 1, snd q))"
    using dir by (auto simp: fl(3) prod_eq_iff)
  show "\<not> wS (cell_of (carved m c n) q) \<Longrightarrow>
           \<not> wS (cell_of m q) \<or> (q = c \<and> n = (fst q, snd q + 1)) \<or> (q = n \<and> c = (fst q, snd q + 1))"
    using dir by (auto simp: fl(4) prod_eq_iff)
  show "\<not> wN (cell_of (carved m c n) q) \<Longrightarrow>
           \<not> wN (cell_of m q) \<or> (q = c \<and> n = (fst q, snd q - 1)) \<or> (q = n \<and> c = (fst q, snd q - 1))"
    using dir by (auto simp: fl(5) prod_eq_iff)
qed

lemma passage_carved_at_n:
  assumes wf: "wf_maze m" and c: "in_grid m c" and n: "in_grid m n" and a: "adjacent c n"
    and cl: "closed_cell (cell_of m n)"
    and ps: "passage (carved m c n) p q"
  shows "p = n \<Longrightarrow> q = c" and "q = n \<Longrightarrow> p = c"
proof -
  note ow = opened_walls[OF wf c n a n]
  have neq: "n \<noteq> c" using adjacent_neq[OF a] by blast
  from cl have w: "wE (cell_of m n)" "wW (cell_of m n)" "wS (cell_of m n)" "wN (cell_of m n)"
    by (simp_all add: closed_cell_def)
  show "p = n \<Longrightarrow> q = c"
  proof -
    assume pn: "p = n"
    from ps pn have
      "(q = (fst n + 1, snd n) \<and> \<not> wE (cell_of (carved m c n) n)) \<or>
       (q = (fst n - 1, snd n) \<and> \<not> wW (cell_of (carved m c n) n)) \<or>
       (q = (fst n, snd n + 1) \<and> \<not> wS (cell_of (carved m c n) n)) \<or>
       (q = (fst n, snd n - 1) \<and> \<not> wN (cell_of (carved m c n) n))"
      unfolding passage_def by blast
    then show "q = c"
    proof (elim disjE conjE)
      assume e: "q = (fst n + 1, snd n)" and "\<not> wE (cell_of (carved m c n) n)"
      with ow(1) w neq have "c = (fst n + 1, snd n)" by blast
      with e show ?thesis by simp
    next
      assume e: "q = (fst n - 1, snd n)" and "\<not> wW (cell_of (carved m c n) n)"
      with ow(2) w neq have "c = (fst n - 1, snd n)" by blast
      with e show ?thesis by simp
    next
      assume e: "q = (fst n, snd n + 1)" and "\<not> wS (cell_of (carved m c n) n)"
      with ow(3) w neq have "c = (fst n, snd n + 1)" by blast
      with e show ?thesis by simp
    next
      assume e: "q = (fst n, snd n - 1)" and "\<not> wN (cell_of (carved m c n) n)"
      with ow(4) w neq have "c = (fst n, snd n - 1)" by blast
      with e show ?thesis by simp
    qed
  qed
  show "q = n \<Longrightarrow> p = c"
  proof -
    assume qn: "q = n"
    from ps qn have
      "(n = (fst p + 1, snd p) \<and> \<not> wW (cell_of (carved m c n) n)) \<or>
       (n = (fst p - 1, snd p) \<and> \<not> wE (cell_of (carved m c n) n)) \<or>
       (n = (fst p, snd p + 1) \<and> \<not> wN (cell_of (carved m c n) n)) \<or>
       (n = (fst p, snd p - 1) \<and> \<not> wS (cell_of (carved m c n) n))"
      unfolding passage_def by blast
    then show "p = c"
    proof (elim disjE conjE)
      assume e: "n = (fst p + 1, snd p)" and "\<not> wW (cell_of (carved m c n) n)"
      with ow(2) w neq have "c = (fst n - 1, snd n)" by blast
      with e show ?thesis by (simp add: prod_eq_iff)
    next
      assume e: "n = (fst p - 1, snd p)" and "\<not> wE (cell_of (carved m c n) n)"
      with ow(1) w neq have "c = (fst n + 1, snd n)" by blast
      with e show ?thesis by (simp add: prod_eq_iff)
    next
      assume e: "n = (fst p, snd p + 1)" and "\<not> wN (cell_of (carved m c n) n)"
      with ow(4) w neq have "c = (fst n, snd n - 1)" by blast
      with e show ?thesis by (simp add: prod_eq_iff)
    next
      assume e: "n = (fst p, snd p - 1)" and "\<not> wS (cell_of (carved m c n) n)"
      with ow(3) w neq have "c = (fst n, snd n + 1)" by blast
      with e show ?thesis by (simp add: prod_eq_iff)
    qed
  qed
qed

lemma passage_carved_off_n:
  assumes wf: "wf_maze m" and c: "in_grid m c" and n: "in_grid m n" and a: "adjacent c n"
    and ps: "passage (carved m c n) p q" and pn: "p \<noteq> n" and qn: "q \<noteq> n"
  shows "passage m p q"
proof -
  from ps have p: "in_grid m p" and q: "in_grid m q" by (auto simp: passage_def carved_shape)
  note op = opened_walls[OF wf c n a p]
  note oq = opened_walls[OF wf c n a q]
  from ps have
    "(q = (fst p + 1, snd p) \<and> \<not> wE (cell_of (carved m c n) p) \<and> \<not> wW (cell_of (carved m c n) q)) \<or>
     (q = (fst p - 1, snd p) \<and> \<not> wW (cell_of (carved m c n) p) \<and> \<not> wE (cell_of (carved m c n) q)) \<or>
     (q = (fst p, snd p + 1) \<and> \<not> wS (cell_of (carved m c n) p) \<and> \<not> wN (cell_of (carved m c n) q)) \<or>
     (q = (fst p, snd p - 1) \<and> \<not> wN (cell_of (carved m c n) p) \<and> \<not> wS (cell_of (carved m c n) q))"
    unfolding passage_def by blast
  then show ?thesis
  proof (elim disjE conjE)
    assume e: "q = (fst p + 1, snd p)" and "\<not> wE (cell_of (carved m c n) p)" "\<not> wW (cell_of (carved m c n) q)"
    with op(1) oq(2) pn qn have "\<not> wE (cell_of m p)" "\<not> wW (cell_of m q)" by auto
    with e p q show ?thesis unfolding passage_def by blast
  next
    assume e: "q = (fst p - 1, snd p)" and "\<not> wW (cell_of (carved m c n) p)" "\<not> wE (cell_of (carved m c n) q)"
    with op(2) oq(1) pn qn have "\<not> wW (cell_of m p)" "\<not> wE (cell_of m q)" by auto
    with e p q show ?thesis unfolding passage_def by blast
  next
    assume e: "q = (fst p, snd p + 1)" and "\<not> wS (cell_of (carved m c n) p)" "\<not> wN (cell_of (carved m c n) q)"
    with op(3) oq(4) pn qn have "\<not> wS (cell_of m p)" "\<not> wN (cell_of m q)" by auto
    with e p q show ?thesis unfolding passage_def by blast
  next
    assume e: "q = (fst p, snd p - 1)" and "\<not> wN (cell_of (carved m c n) p)" "\<not> wS (cell_of (carved m c n) q)"
    with op(4) oq(3) pn qn have "\<not> wN (cell_of m p)" "\<not> wS (cell_of m q)" by auto
    with e p q show ?thesis unfolding passage_def by blast
  qed
qed

lemma no_cycle_carved:
  assumes wf: "wf_maze m" and c: "in_grid m c" and n: "in_grid m n" and a: "adjacent c n"
    and cl: "closed_cell (cell_of m n)"
    and nc: "\<And>ps. \<not> simple_cycle m ps"
  shows "\<not> simple_cycle (carved m c n) ps"
proof
  assume cyc: "simple_cycle (carved m c n) ps"
  let ?m' = "carved m c n"
  from cyc have L: "3 \<le> length ps" and d: "distinct ps"
    and st: "\<And>i. i + 1 < length ps \<Longrightarrow> passage ?m' (ps ! i) (ps ! (i + 1))"
    and cl': "passage ?m' (last ps) (hd ps)"
    by (auto simp: simple_cycle_def)
  from L have ne: "ps \<noteq> []" by auto
  have hd0: "hd ps = ps ! 0" using ne by (simp add: hd_conv_nth)
  have lastL: "last ps = ps ! (length ps - 1)" using ne by (simp add: last_conv_nth)
  note at_n = passage_carved_at_n[OF wf c n a cl]
  show False
  proof (cases "n \<in> set ps")
    case False
    have "\<And>i. i + 1 < length ps \<Longrightarrow> passage m (ps ! i) (ps ! (i + 1))"
    proof -
      fix i assume i: "i + 1 < length ps"
      have "ps ! i \<noteq> n" "ps ! (i + 1) \<noteq> n" using False i by (auto simp: in_set_conv_nth)
      with passage_carved_off_n[OF wf c n a st[OF i]] show "passage m (ps ! i) (ps ! (i + 1))" by blast
    qed
    moreover have "passage m (last ps) (hd ps)"
    proof -
      have "last ps \<noteq> n" "hd ps \<noteq> n" using False ne by auto
      with passage_carved_off_n[OF wf c n a cl'] show ?thesis by blast
    qed
    ultimately have "simple_cycle m ps" using L d by (simp add: simple_cycle_def)
    with nc show False by blast
  next
    case True
    then obtain i where i: "i < length ps" and pi: "ps ! i = n" by (auto simp: in_set_conv_nth)
    have succ: "\<exists>j. j < length ps \<and> j \<noteq> i \<and> ps ! j = c \<and> (j = i + 1 \<or> (i + 1 = length ps \<and> j = 0))"
    proof (cases "i + 1 < length ps")
      case True
      from at_n(1)[OF st[OF True]] pi have "ps ! (i + 1) = c" by simp
      moreover have "i + 1 \<noteq> i" by simp
      ultimately show ?thesis using True by blast
    next
      case False
      with i have e: "i = length ps - 1" by simp
      from at_n(1)[OF cl'] pi e lastL hd0 have "ps ! 0 = c" by simp
      moreover have "0 < length ps" "0 \<noteq> i" "i + 1 = length ps" using e L by auto
      ultimately show ?thesis by blast
    qed
    have pred: "\<exists>j. j < length ps \<and> j \<noteq> i \<and> ps ! j = c \<and> (j + 1 = i \<or> (i = 0 \<and> j + 1 = length ps))"
    proof (cases "i = 0")
      case True
      from at_n(2)[OF cl'] pi True hd0 lastL have "ps ! (length ps - 1) = c" by simp
      moreover have "length ps - 1 < length ps" "length ps - 1 \<noteq> i" "length ps - 1 + 1 = length ps"
        using True L by auto
      ultimately show ?thesis using True by blast
    next
      case False
      then have s: "(i - 1) + 1 < length ps" using i by simp
      from at_n(2)[OF st[OF s]] pi False have "ps ! (i - 1) = c" by simp
      moreover have "i - 1 < length ps" "i - 1 \<noteq> i" "i - 1 + 1 = i" using False i by auto
      ultimately show ?thesis by blast
    qed
    from succ pred obtain j k where
      j: "j < length ps" "ps ! j = c" "j = i + 1 \<or> (i + 1 = length ps \<and> j = 0)" and
      k: "k < length ps" "ps ! k = c" "k + 1 = i \<or> (i = 0 \<and> k + 1 = length ps)"
      by blast
    have "ps ! j = ps ! k" using j(2) k(2) by simp
    with d j(1) k(1) have "j = k" by (simp add: nth_eq_iff_index_eq)
    with j(3) k(3) L show False by auto
  qed
qed

lemma inv_push:
  assumes inv: "carve_inv m (c # rest)" and n: "in_grid m n" and a: "adjacent c n"
    and u: "\<not> visited (cell_of m n)"
  shows "carve_inv (carved m c n) (n # c # rest)"
proof -
  from inv have wf: "wf_maze m" and c: "in_grid m c" and vc: "visited (cell_of m c)"
    and st: "\<forall>p \<in> set rest. in_grid m p \<and> visited (cell_of m p)"
    and v0: "visited (cell_of m (0, 0))"
    and re: "\<And>p. in_grid m p \<Longrightarrow> visited (cell_of m p) \<Longrightarrow> reachable m p"
    and clo: "\<And>p q. in_grid m p \<Longrightarrow> visited (cell_of m p) \<Longrightarrow> in_grid m q \<Longrightarrow> adjacent p q \<Longrightarrow>
        p \<in> set (c # rest) \<or> visited (cell_of m q)"
    and un: "\<And>p. in_grid m p \<Longrightarrow> \<not> visited (cell_of m p) \<Longrightarrow> closed_cell (cell_of m p)"
    and wc: "walls_consistent m"
    and cnt: "n_passages m + 1 = n_visited m"
    and nc: "\<And>ps. \<not> simple_cycle m ps"
    unfolding carve_inv_def by (simp_all del: split_paired_All)
  note fl = flags_carved[OF wf c n a]
  have g0: "in_grid m (0, 0)" using wf by (simp add: in_grid_def wf_maze_def)
  have 1: "wf_maze (carved m c n)" by (rule wf_carved[OF wf])
  have 2: "\<forall>p \<in> set (n # c # rest). in_grid (carved m c n) p \<and> visited (cell_of (carved m c n) p)"
    using st c vc n by (auto simp: carved_shape fl)
  have 3: "visited (cell_of (carved m c n) (0, 0))" using v0 g0 by (simp add: fl)
  have 4: "\<forall>p. in_grid (carved m c n) p \<and> visited (cell_of (carved m c n) p) \<longrightarrow>
       reachable (carved m c n) p"
  proof (intro allI impI)
    fix p assume "in_grid (carved m c n) p \<and> visited (cell_of (carved m c n) p)"
    then have p: "in_grid m p" and v: "visited (cell_of m p) \<or> p = n"
      by (auto simp: carved_shape fl)
    show "reachable (carved m c n) p"
    proof (cases "visited (cell_of m p)")
      case True
      then show ?thesis using re[OF p] reachable_carved[OF wf c n a] by blast
    next
      case False
      with v have "p = n" by simp
      moreover have "reachable (carved m c n) c"
        using re[OF c vc] reachable_carved[OF wf c n a] by blast
      ultimately show ?thesis
        using passage_carved(2)[OF wf c n a] reachable.step by blast
    qed
  qed
  have 5: "\<forall>p q. in_grid (carved m c n) p \<and> visited (cell_of (carved m c n) p) \<and>
        in_grid (carved m c n) q \<and> adjacent p q \<longrightarrow>
        p \<in> set (n # c # rest) \<or> visited (cell_of (carved m c n) q)"
  proof (intro allI impI)
    fix p q
    assume "in_grid (carved m c n) p \<and> visited (cell_of (carved m c n) p) \<and>
        in_grid (carved m c n) q \<and> adjacent p q"
    then have p: "in_grid m p" and v: "visited (cell_of m p) \<or> p = n" and q: "in_grid m q"
      and pq: "adjacent p q"
      by (auto simp: carved_shape fl)
    show "p \<in> set (n # c # rest) \<or> visited (cell_of (carved m c n) q)"
    proof (cases "p = n")
      case True
      then show ?thesis by simp
    next
      case False
      with v have "visited (cell_of m p)" by simp
      from clo[OF p this q pq] show ?thesis using q by (auto simp: fl)
    qed
  qed
  have 6: "\<forall>p. in_grid (carved m c n) p \<and> \<not> visited (cell_of (carved m c n) p) \<longrightarrow>
       closed_cell (cell_of (carved m c n) p)"
  proof (intro allI impI)
    fix p
    assume "in_grid (carved m c n) p \<and> \<not> visited (cell_of (carved m c n) p)"
    then have p: "in_grid m p" and v: "\<not> visited (cell_of m p)" and pn: "p \<noteq> n"
      by (auto simp: carved_shape fl)
    from v vc have pc: "p \<noteq> c" by auto
    from un[OF p v] pn pc show "closed_cell (cell_of (carved m c n) p)"
      by (simp add: closed_cell_def fl[OF p])
  qed
  have 7: "walls_consistent (carved m c n)" by (rule consistent_carved[OF wf c n a wc])
  have 8: "n_passages (carved m c n) + 1 = n_visited (carved m c n)"
    using n_passages_carved[OF wf c n a un[OF n u] wc] n_visited_carved[OF wf c n a u] cnt by simp
  have 9: "\<forall>ps. \<not> simple_cycle (carved m c n) ps"
    using no_cycle_carved[OF wf c n a un[OF n u] nc] by blast
  from 1 2 3 4 5 6 7 8 9 show ?thesis unfolding carve_inv_def by blast
qed

lemma inv_pop:
  assumes inv: "carve_inv m (c # rest)"
    and nb: "\<And>q. adjacent c q \<Longrightarrow> in_grid m q \<Longrightarrow> visited (cell_of m q)"
  shows "carve_inv m rest"
proof -
  from inv have clo: "\<And>p q. in_grid m p \<Longrightarrow> visited (cell_of m p) \<Longrightarrow> in_grid m q \<Longrightarrow> adjacent p q \<Longrightarrow>
        p \<in> set (c # rest) \<or> visited (cell_of m q)"
    unfolding carve_inv_def by (simp_all del: split_paired_All)
  have "\<forall>p q. in_grid m p \<and> visited (cell_of m p) \<and> in_grid m q \<and> adjacent p q \<longrightarrow>
        p \<in> set rest \<or> visited (cell_of m q)"
  proof (intro allI impI)
    fix p q
    assume h: "in_grid m p \<and> visited (cell_of m p) \<and> in_grid m q \<and> adjacent p q"
    show "p \<in> set rest \<or> visited (cell_of m q)"
    proof (cases "p = c")
      case True
      then show ?thesis using nb[of q] h by simp
    next
      case False
      then show ?thesis using clo[of p q] h by auto
    qed
  qed
  then show ?thesis using inv unfolding carve_inv_def by (simp del: split_paired_All)
qed

subsection \<open>The loop terminates with a spanning tree\<close>

lemma n_visited_le: "n_visited m \<le> length (grid m)"
  by (simp add: n_visited_def)

lemma generate_loop_inv:
  assumes "carve_inv m stack"
  shows "\<exists>m' s'. generate_loop L s m stack = Some (m', s') \<and> carve_inv m' [] \<and>
           w m' = w m \<and> h m' = h m"
proof -
  have "wf (measures [\<lambda>(m, s). length (grid m) - n_visited m, \<lambda>(m, s). length s])"
    by simp
  then show ?thesis using assms
  proof (induction "(m, stack)" arbitrary: m stack s rule: wf_induct_rule)
    case less
    note inv = less.prems
    show ?case
    proof (cases stack)
      case Nil
      then show ?thesis using inv by (subst generate_loop.simps) simp
    next
      case (Cons c rest)
      obtain cx cy where cc: "c = (cx, cy)" by (cases c)
      from inv have wf: "wf_maze m" and c: "in_grid m c"
        unfolding carve_inv_def Cons by (simp_all del: split_paired_All)
      from neighbors_dirs[OF wf, of cx cy] obtain ns where
        ns: "neighbors m cx cy dirs = Some ns" and
        S: "\<And>q. q \<in> set ns \<longleftrightarrow> adjacent c q \<and> in_grid m q \<and> \<not> visited (cell_of m q)"
        unfolding cc by blast
      show ?thesis
      proof (cases "ns = []")
        case True
        then have nb: "\<And>q. adjacent c q \<Longrightarrow> in_grid m q \<Longrightarrow> visited (cell_of m q)"
          using S by auto
        have inv': "carve_inv m rest" using inv_pop[OF inv[unfolded Cons] nb] .
        have "((m, rest), (m, stack)) \<in> measures [\<lambda>(m, s). length (grid m) - n_visited m, \<lambda>(m, s). length s]"
          by (simp add: Cons)
        from less.hyps[OF this inv', of s] obtain m' s' where
          "generate_loop L s m rest = Some (m', s')" "carve_inv m' []" "w m' = w m" "h m' = h m"
          by blast
        then show ?thesis using ns True
          by (subst generate_loop.simps) (simp add: Cons cc)
      next
        case False
        define n where "n = ns ! (fst (rand L s) mod length ns)"
        have "n \<in> set ns" using False by (simp add: n_def)
        with S have a: "adjacent c n" and n: "in_grid m n" and u: "\<not> visited (cell_of m n)"
          by auto
        have cv: "carve m (cx, cy) n = Some (carved m c n)"
          using carve_carved[OF wf c n a] by (simp add: cc)
        have inv': "carve_inv (carved m c n) (n # stack)"
          using inv_push[OF inv[unfolded Cons] n a u] by (simp add: Cons)
        have "n_visited (carved m c n) = n_visited m + 1"
          by (rule n_visited_carved[OF wf c n a u])
        moreover have "n_visited (carved m c n) \<le> length (grid m)"
          using n_visited_le[of "carved m c n"] by (simp add: carved_shape)
        ultimately have "((carved m c n, n # stack), (m, stack)) \<in>
            measures [\<lambda>(m, s). length (grid m) - n_visited m, \<lambda>(m, s). length s]"
          by (simp add: carved_shape)
        from less.hyps[OF this inv', of "snd (rand L s)"] obtain m' s' where
          "generate_loop L (snd (rand L s)) (carved m c n) (n # stack) = Some (m', s')" "carve_inv m' []"
          "w m' = w m" "h m' = h m"
          by (auto simp: carved_shape)
        then show ?thesis using ns False cv
          by (subst generate_loop.simps) (simp add: Cons cc n_def Let_def)
      qed
    qed
  qed
qed

lemma all_visited:
  assumes inv: "carve_inv m []" and p: "in_grid m p"
  shows "visited (cell_of m p)"
proof -
  from inv have wf: "wf_maze m" and v0: "visited (cell_of m (0, 0))"
    and clo: "\<And>p q. in_grid m p \<Longrightarrow> visited (cell_of m p) \<Longrightarrow> in_grid m q \<Longrightarrow> adjacent p q \<Longrightarrow>
        visited (cell_of m q)"
    unfolding carve_inv_def by (simp_all del: split_paired_All)
  from wf have H: "0 < h m" by (simp add: wf_maze_def)
  have row: "int k < w m \<Longrightarrow> visited (cell_of m (int k, 0))" for k
  proof (induction k)
    case 0
    then show ?case using v0 by simp
  next
    case (Suc k)
    then have v: "visited (cell_of m (int k, 0))" by simp
    have g1: "in_grid m (int k, 0)" and g2: "in_grid m (int (Suc k), 0)"
      using Suc.prems H by (simp_all add: in_grid_def)
    have "adjacent (int k, 0) (int (Suc k), 0)" by (simp add: adjacent_def)
    from clo[OF g1 v g2 this] show ?case .
  qed
  have col: "int j < h m \<Longrightarrow> visited (cell_of m (fst p, int j))" for j
  proof (induction j)
    case 0
    have "int (nat (fst p)) < w m" "int (nat (fst p)) = fst p"
      using p by (simp_all add: in_grid_def)
    with row[of "nat (fst p)"] show ?case by simp
  next
    case (Suc j)
    then have v: "visited (cell_of m (fst p, int j))" by simp
    have g1: "in_grid m (fst p, int j)" and g2: "in_grid m (fst p, int (Suc j))"
      using Suc.prems p by (simp_all add: in_grid_def)
    have "adjacent (fst p, int j) (fst p, int (Suc j))" by (simp add: adjacent_def)
    from clo[OF g1 v g2 this] show ?case .
  qed
  have "int (nat (snd p)) < h m" "int (nat (snd p)) = snd p"
    using p by (simp_all add: in_grid_def)
  with col[of "nat (snd p)"] show ?thesis by simp
qed

lemma index_coords:
  assumes wf: "wf_maze m" and i: "i < length (grid m)"
  shows "\<exists>p. in_grid m p \<and> idx m p = i"
proof -
  from wf have W: "0 < w m" and L: "int (length (grid m)) = w m * h m"
    by (simp_all add: wf_maze_def)
  let ?x = "int i mod w m" and ?y = "int i div w m"
  have x: "0 \<le> ?x" "?x < w m" using W by simp_all
  have y0: "0 \<le> ?y" using W by (simp add: pos_imp_zdiv_nonneg_iff)
  have e: "?y * w m + ?x = int i" by simp
  have "?y < h m"
  proof (rule ccontr)
    assume "\<not> ?y < h m"
    then have "h m * w m \<le> ?y * w m" using W by (intro mult_right_mono) auto
    with e x have "h m * w m \<le> int i" by linarith
    with i L show False by (simp add: mult.commute)
  qed
  with x y0 have "in_grid m (?x, ?y)" by (simp add: in_grid_def)
  moreover have "idx m (?x, ?y) = i" by (simp add: idx_def)
  ultimately show ?thesis by blast
qed

lemma all_visited_count:
  assumes inv: "carve_inv m []"
  shows "n_visited m = length (grid m)"
proof -
  from inv have wf: "wf_maze m" by (simp add: carve_inv_def)
  have "\<forall>c \<in> set (grid m). visited c"
  proof
    fix c assume "c \<in> set (grid m)"
    then obtain i where i: "i < length (grid m)" and c: "c = grid m ! i"
      by (auto simp: in_set_conv_nth)
    from index_coords[OF wf i] obtain p where p: "in_grid m p" "idx m p = i" by blast
    from all_visited[OF inv p(1)] show "visited c" by (simp add: cell_of_def p(2) c)
  qed
  then have "filter visited (grid m) = grid m" by (simp add: filter_True)
  then show ?thesis by (simp add: n_visited_def)
qed

lemma wrap32_id: "- 2147483648 \<le> x \<Longrightarrow> x \<le> 2147483647 \<Longrightarrow> wrap32 x = x"
  by (simp add: wrap32_def)

lemma cell_of_fresh:
  assumes "1 \<le> W" "1 \<le> H" "W * H \<le> 2147483647" "new_Maze W H sw sh wt = Some m0"
  shows "wf_maze m0" "w m0 = W" "h m0 = H" "grid m0 = replicate (nat (W * H)) fresh_cell"
proof -
  have "0 \<le> W * H" using assms(1,2) by simp
  then have "wrap32 (W * H) = W * H" using assms(3) by (intro wrap32_id) linarith+
  then show "wf_maze m0" "w m0 = W" "h m0 = H" "grid m0 = replicate (nat (W * H)) fresh_cell"
    using assms by (auto simp: new_Maze_def wf_maze_def split: if_splits)
qed

lemma inv_start:
  assumes W: "1 \<le> W" and H: "1 \<le> H" and B: "W * H \<le> 2147483647"
    and m0: "new_Maze W H sw sh wt = Some m0"
  shows "\<exists>m1. set_cell m0 0 0 (\<lambda>c. c\<lparr>visited := True\<rparr>) = Some m1 \<and> carve_inv m1 [(0, 0)] \<and>
           w m1 = W \<and> h m1 = H"
proof -
  note f = cell_of_fresh[OF W H B m0]
  have g0: "in_grid m0 (0, 0)" using W H by (simp add: in_grid_def f)
  define m1 where "m1 = m0\<lparr>grid := (grid m0)[idx m0 (0, 0) := (cell_of m0 (0, 0))\<lparr>visited := True\<rparr>]\<rparr>"
  have s: "set_cell m0 0 0 (\<lambda>c. c\<lparr>visited := True\<rparr>) = Some m1"
    using set_cell_in_grid[OF f(1) g0] by (simp add: m1_def)
  have wf1: "wf_maze m1" unfolding m1_def by (rule wf_update[OF f(1)])
  have sh: "w m1 = W" "h m1 = H" by (simp_all add: m1_def f)
  have ig: "\<And>p. in_grid m1 p = in_grid m0 p" by (simp add: m1_def in_grid_update)
  have c0: "\<And>p. in_grid m0 p \<Longrightarrow> cell_of m0 p = fresh_cell"
    using idx_less[OF f(1)] by (simp add: cell_of_def f(4))
  have c1: "\<And>p. in_grid m0 p \<Longrightarrow>
      cell_of m1 p = (if p = (0, 0) then fresh_cell\<lparr>visited := True\<rparr> else fresh_cell)"
    unfolding m1_def using cell_of_update[OF f(1) g0] c0 g0 by simp
  have i0: "idx m0 (0, 0) < length (grid m0)" by (rule idx_less[OF f(1) g0])
  have cnt: "\<And>P. length (filter P (grid m1)) + (if P fresh_cell then 1 else 0) =
      length (filter P (grid m0)) + (if P (fresh_cell\<lparr>visited := True\<rparr>) then 1 else 0)"
    using count_update[OF i0] c0[OF g0] i0 unfolding m1_def
    by (simp add: cell_of_def)
  have 2: "\<forall>p \<in> set [(0, 0)]. in_grid m1 p \<and> visited (cell_of m1 p)"
    using g0 by (simp add: ig c1)
  have 3: "visited (cell_of m1 (0, 0))" using g0 by (simp add: c1)
  have 4: "\<forall>p. in_grid m1 p \<and> visited (cell_of m1 p) \<longrightarrow> reachable m1 p"
  proof (intro allI impI)
    fix p assume "in_grid m1 p \<and> visited (cell_of m1 p)"
    then have "p = (0, 0)" by (auto simp: ig c1 fresh_cell_def split: if_splits)
    then show "reachable m1 p" by (simp add: reachable.start)
  qed
  have 5: "\<forall>p q. in_grid m1 p \<and> visited (cell_of m1 p) \<and> in_grid m1 q \<and> adjacent p q \<longrightarrow>
        p \<in> set [(0, 0)] \<or> visited (cell_of m1 q)"
    by (auto simp: ig c1 fresh_cell_def split: if_splits)
  have 6: "\<forall>p. in_grid m1 p \<and> \<not> visited (cell_of m1 p) \<longrightarrow> closed_cell (cell_of m1 p)"
    by (auto simp: ig c1 fresh_cell_def closed_cell_def split: if_splits)
  have 7: "walls_consistent m1"
    unfolding walls_consistent_def
    by (auto simp: ig c1 sh in_grid_def f fresh_cell_def)
  have 8: "n_passages m1 + 1 = n_visited m1"
    using cnt[of "\<lambda>c. \<not> wE c"] cnt[of "\<lambda>c. \<not> wS c"] cnt[of visited]
    by (simp add: n_passages_def n_visited_def f(4) fresh_cell_def)
  have 9: "\<forall>ps. \<not> simple_cycle m1 ps"
  proof (intro allI notI)
    fix ps assume "simple_cycle m1 ps"
    then have "passage m1 (last ps) (hd ps)" by (simp add: simple_cycle_def)
    then show False
      unfolding passage_def by (auto simp: ig c1 fresh_cell_def split: if_splits)
  qed
  from wf1 2 3 4 5 6 7 8 9 have "carve_inv m1 [(0, 0)]" unfolding carve_inv_def by blast
  with s sh show ?thesis by blast
qed

text \<open>
  C3, as stated, fails for sizes whose product does not fit an \<^verbatim>\<open>int\<close>: for 65536 x
  65536 cells the product is 0 in 32 bits, the constructor builds an empty vector and
  \<^verbatim>\<open>generate\<close> writes its first element; for 46341 x 46341 cells the product is
  negative and the constructor throws.
\<close>

theorem generate_overflow_counterexample:
  "map_option grid (new_Maze 65536 65536 1 1 0) = Some [] \<and>
   generate glibc_lib 1700000000 (srand glibc_lib 42) (the (new_Maze 65536 65536 1 1 0)) = None \<and>
   new_Maze 46341 46341 1 1 0 = None"
  by (simp add: new_Maze_def wrap32_def generate_def set_cell_def at_index_def Let_def)

text \<open>
  C3 (amended): for every width and height of at least 1 (1 x 1, 1 x N and N x 1 included)
  whose product is at most \<^verbatim>\<open>INT_MAX\<close>, for every random generator, every state of
  it and every clock value, \<^verbatim>\<open>generate\<close> on the maze the constructor builds
  terminates, and in its result every cell of the grid is visited and is reachable from
  \<^verbatim>\<open>(0,0)\<close> through open passages (no isolated region), the passages form no cycle,
  the walls are consistent, and the number of passages is \<^verbatim>\<open>W * H - 1\<close>: the passages
  are a spanning tree of the grid.
\<close>

theorem generate_spanning_tree:
  assumes "1 \<le> W" and "1 \<le> H" and "W * H \<le> 2147483647"
    and "new_Maze W H sheetW sheetH wallT = Some m0"
  shows "\<exists>m s'. generate L now s0 m0 = Some (m, s') \<and> w m = W \<and> h m = H \<and>
           (\<forall>p. in_grid m p \<longrightarrow> visited (cell_of m p) \<and> reachable m p) \<and>
           (\<forall>ps. \<not> simple_cycle m ps) \<and>
           walls_consistent m \<and> n_passages m + 1 = nat (W * H)"
proof -
  from inv_start[OF assms] obtain m1 where
    s: "set_cell m0 0 0 (\<lambda>c. c\<lparr>visited := True\<rparr>) = Some m1" and
    inv1: "carve_inv m1 [(0, 0)]" and sh1: "w m1 = W" "h m1 = H"
    by blast
  from generate_loop_inv[OF inv1, of L "srand L (now mod 2 ^ 32)"] obtain m s' where
    l: "generate_loop L (srand L (now mod 2 ^ 32)) m1 [(0, 0)] = Some (m, s')" and
    inv: "carve_inv m []" and sh: "w m = w m1" "h m = h m1"
    by blast
  have g: "generate L now s0 m0 = Some (m, s')"
    using s l by (simp add: generate_def Let_def)
  from inv have wf: "wf_maze m" and wc: "walls_consistent m"
    and cnt: "n_passages m + 1 = n_visited m"
    and re: "\<And>p. in_grid m p \<Longrightarrow> visited (cell_of m p) \<Longrightarrow> reachable m p"
    and nc: "\<forall>ps. \<not> simple_cycle m ps"
    unfolding carve_inv_def by (simp_all del: split_paired_All)
  have len: "length (grid m) = nat (W * H)"
  proof -
    from wf sh sh1 have "int (length (grid m)) = W * H" by (simp add: wf_maze_def)
    then show ?thesis by linarith
  qed
  have "\<forall>p. in_grid m p \<longrightarrow> visited (cell_of m p) \<and> reachable m p"
    using all_visited[OF inv] re by blast
  moreover have "n_passages m + 1 = nat (W * H)"
    using cnt all_visited_count[OF inv] len by simp
  ultimately show ?thesis using g wc sh sh1 nc by auto
qed

theorem generate_spanning_tree_witness:
  "(1::int) \<le> 1 \<and> (1::int) * 1 \<le> 2147483647 \<and>
   new_Maze 1 1 (297 / 1000) (210 / 1000) (35 / 10000) =
     Some (the (new_Maze 1 1 (297 / 1000) (210 / 1000) (35 / 10000))) \<and>
   (\<exists>m s'. generate glibc_lib 1700000000 (srand glibc_lib 42)
              (the (new_Maze 1 1 (297 / 1000) (210 / 1000) (35 / 10000))) = Some (m, s') \<and>
        w m = 1 \<and> h m = 1 \<and>
        (\<forall>p. in_grid m p \<longrightarrow> visited (cell_of m p) \<and> reachable m p) \<and>
        (\<forall>ps. \<not> simple_cycle m ps) \<and>
        walls_consistent m \<and> n_passages m + 1 = nat (1 * 1)) \<and>
   (1::int) \<le> 8 \<and> (1::int) \<le> 6 \<and> (8::int) * 6 \<le> 2147483647 \<and>
   new_Maze 8 6 (297 / 1000) (210 / 1000) (35 / 10000) =
     Some (the (new_Maze 8 6 (297 / 1000) (210 / 1000) (35 / 10000))) \<and>
   (\<exists>m s'. generate glibc_lib 1700000000 (srand glibc_lib 42)
              (the (new_Maze 8 6 (297 / 1000) (210 / 1000) (35 / 10000))) = Some (m, s') \<and>
        w m = 8 \<and> h m = 6 \<and>
        (\<forall>p. in_grid m p \<longrightarrow> visited (cell_of m p) \<and> reachable m p) \<and>
        (\<forall>ps. \<not> simple_cycle m ps) \<and>
        walls_consistent m \<and> n_passages m + 1 = nat (8 * 6))"
proof -
  have a: "(1::int) \<le> 1" "(1::int) \<le> 8" "(1::int) \<le> 6" by simp_all
  have n: "(1::int) * 1 \<le> 2147483647" "(8::int) * 6 \<le> 2147483647" by simp_all
  have b: "new_Maze 1 1 (297 / 1000) (210 / 1000) (35 / 10000) =
     Some (the (new_Maze 1 1 (297 / 1000) (210 / 1000) (35 / 10000)))"
    by (simp add: new_Maze_def wrap32_def)
  have c: "new_Maze 8 6 (297 / 1000) (210 / 1000) (35 / 10000) =
     Some (the (new_Maze 8 6 (297 / 1000) (210 / 1000) (35 / 10000)))"
    by (simp add: new_Maze_def wrap32_def)
  from generate_spanning_tree[OF a(1) a(1) n(1) b, of glibc_lib 1700000000 "srand glibc_lib 42"]
       generate_spanning_tree[OF a(2) a(3) n(2) c, of glibc_lib 1700000000 "srand glibc_lib 42"]
       a n b c
  show ?thesis by blast
qed

subsection \<open>The seed\<close>







section \<open>Ball::update in floating point\<close>

subsection \<open>The final clamp\<close>

lemma fclamp_bounds_box:
  assumes o: "ordered A" and f: "fle A r maxv" and n: "not_nan A (fclamp_bounds A r maxv p)"
  shows "in_box A r maxv (fclamp_bounds A r maxv p)"
proof -
  from o have l1: "\<And>x y. not_nan A x \<Longrightarrow> not_nan A y \<Longrightarrow> \<not> flt A x y \<Longrightarrow> fle A y x"
    and l2: "\<And>x. not_nan A x \<Longrightarrow> fle A x x"
    and l3: "\<And>x y. fle A x y \<Longrightarrow> \<not> flt A y x"
    and l4: "\<And>x y. fle A x y \<Longrightarrow> not_nan A x \<and> not_nan A y"
    unfolding ordered_def by blast+
  from l4[OF f] have nr: "not_nan A r" and nm: "not_nan A maxv" by simp_all
  show ?thesis
  proof (cases "flt A p r")
    case True
    with l3[OF f] have "fclamp_bounds A r maxv p = r" by (simp add: fclamp_bounds_def)
    with f l2[OF nr] show ?thesis by (simp add: in_box_def)
  next
    case False
    show ?thesis
    proof (cases "flt A maxv p")
      case True
      with False have "fclamp_bounds A r maxv p = maxv" by (simp add: fclamp_bounds_def)
      with f l2[OF nm] show ?thesis by (simp add: in_box_def)
    next
      case F2: False
      with False have e: "fclamp_bounds A r maxv p = p" by (simp add: fclamp_bounds_def)
      with n have np: "not_nan A p" by simp
      from l1[OF np nr False] l1[OF nm np F2] show ?thesis by (simp add: in_box_def e)
    qed
  qed
qed


subsection \<open>One step\<close>

lemma fcollide_fields:
  assumes "fcollide A mz b v np = Some b'"
  shows "radius b' = radius b"
  using assms by (auto simp: fcollide_def Let_def split: option.splits)

lemma fcollide_box:
  assumes o: "ordered A" and c: "fcollide A mz b v np = Some b'"
    and fw: "fle A (radius b) (fmaxW A mz b)" and fh: "fle A (radius b) (fmaxH A mz b)"
  shows "(not_nan A (fst (pos b')) \<longrightarrow> in_box A (radius b) (fmaxW A mz b) (fst (pos b'))) \<and>
         (not_nan A (snd (pos b')) \<longrightarrow> in_box A (radius b) (fmaxH A mz b) (snd (pos b')))"
proof -
  from c obtain px py where
    p: "pos b' = (fclamp_bounds A (radius b) (fmaxW A mz b) px,
                  fclamp_bounds A (radius b) (fmaxH A mz b) py)"
    by (auto simp: fcollide_def Let_def fmaxW_def fmaxH_def split: option.splits)
  show ?thesis
    unfolding p using fclamp_bounds_box[OF o fw] fclamp_bounds_box[OF o fh] by simp
qed

lemma fstep_radius: "fstep A dt acc mz b = Some b' \<Longrightarrow> radius b' = radius b"
  unfolding fstep_def by (rule fcollide_fields)

lemma fstep_box:
  assumes "ordered A" and "fstep A dt acc mz b = Some b'"
    and "fle A (radius b) (fmaxW A mz b)" and "fle A (radius b) (fmaxH A mz b)"
  shows "(not_nan A (fst (pos b')) \<longrightarrow> in_box A (radius b) (fmaxW A mz b) (fst (pos b'))) \<and>
         (not_nan A (snd (pos b')) \<longrightarrow> in_box A (radius b) (fmaxH A mz b) (snd (pos b')))"
  using assms unfolding fstep_def by (rule fcollide_box)

text \<open>The step returns whenever the two conversions to \<^verbatim>\<open>int\<close> are defined.\<close>

lemma fstep_Some:
  assumes "wf_maze mz"
    and "ftrunc A (fdiv A (fst (pos b)) (cellW mz)) = Some gx"
    and "ftrunc A (fdiv A (snd (pos b)) (cellH mz)) = Some gy"
  shows "\<exists>b'. fstep A dt acc mz b = Some b'"
proof -
  from maze_at_wf[OF assms(1), of gx gy] obtain c where "maze_at mz gx gy = Some c" by blast
  then show ?thesis using assms(2,3) by (simp add: fstep_def fcollide_def Let_def)
qed

subsection \<open>A sequence of steps\<close>

lemma fsteps_last:
  assumes "fsteps A mz ins b = Some b'" and "ins \<noteq> []"
  shows "\<exists>b1 dt acc. fstep A dt acc mz b1 = Some b' \<and> radius b1 = radius b"
  using assms
proof (induction ins arbitrary: b)
  case Nil
  then show ?case by simp
next
  case (Cons x ins)
  obtain dt acc where x: "x = (dt, acc)" by (cases x)
  from Cons.prems(1) obtain b2 where
    s: "fstep A dt acc mz b = Some b2" and r: "fsteps A mz ins b2 = Some b'"
    by (auto simp: x split: option.splits)
  show ?case
  proof (cases "ins = []")
    case True
    with r have "b2 = b'" by simp
    with s show ?thesis by blast
  next
    case False
    from Cons.IH[OF r False] obtain b1 dt' acc' where
      "fstep A dt' acc' mz b1 = Some b'" "radius b1 = radius b2" by blast
    with fstep_radius[OF s] have "fstep A dt' acc' mz b1 = Some b' \<and> radius b1 = radius b"
      by simp
    then show ?thesis by blast
  qed
qed

lemma ordered_ext: "ordered ext_fp"
proof -
  have 1: "not_nan ext_fp x \<and> not_nan ext_fp y \<and> \<not> flt ext_fp x y \<longrightarrow> fle ext_fp y x" for x y
    by (cases x; cases y) (simp_all add: ext_fp_def ele_def)
  have 2: "not_nan ext_fp x \<longrightarrow> fle ext_fp x x" for x
    by (cases x) (simp_all add: ext_fp_def ele_def)
  have 3: "fle ext_fp x y \<longrightarrow> \<not> flt ext_fp y x" for x y
    by (simp add: ext_fp_def ele_def)
  have 4: "fle ext_fp x y \<longrightarrow> not_nan ext_fp x \<and> not_nan ext_fp y" for x y
    by (simp add: ext_fp_def ele_def)
  show ?thesis unfolding ordered_def using 1 2 3 4 by blast
qed

lemmas ext_run = ext_fp_def ext_maze_def ext_ball_def fin_def flt_max_def esub_def einf_def ele_def
  push_def fstep_def fcollide_def fintegrate_def fwall_hit_def fclamp_bounds_def fedge_def
  maze_at_def at_index_def to_int_def wrap32_def new_Maze_def fresh_cell_def Let_def
  fmaxW_def fmaxH_def in_box_def past_low_def past_high_def low_hit_def high_hit_def bounced_def

text \<open>
  C1, as stated, fails in two ways.

  \<^enum> The ball is wider than the maze: a ball of radius 1 in the maze of one cell of size
    1 x 1 has no position in the (empty) box; the final clamp leaves it at 0, below the
    radius.

  \<^enum> A value overflows: in the maze of 8 x 6 cells on a sheet of 0.297 x 0.210, a ball of
    radius 0.01 at rest at the centre of the cell \<^verbatim>\<open>(0,0)\<close> is pushed west with
    \<^verbatim>\<open>dt = 3e38\<close>. In the first call the product \<^verbatim>\<open>acc * dt\<close> is infinite, and
    so are the velocity and the tentative position; the west wall clamps the position and the
    bounce leaves the velocity infinite, of the other sign. In the second call the sum
    \<^verbatim>\<open>vel + acc * dt\<close> of the two infinities is NaN, so is the tentative position, and
    no comparison of the collisions or of the final clamp holds of it: the position is NaN.
\<close>

theorem ball_bounds_counterexample:
  "map_option (\<lambda>b'. fle ext_fp (radius (ext_ball 1 (1 / 2, 1 / 2) (0, 0))) (fst (pos b')))
     (fsteps ext_fp (ext_maze (the (new_Maze 1 1 1 1 0)))
        [(fin (1 / 60), (fin 0, fin 0))] (ext_ball 1 (1 / 2, 1 / 2) (0, 0))) = Some False \<and>
   fle ext_fp (radius (ext_ball (1 / 100) (297 / 16000, 7 / 400) (0, 0)))
     (fmaxW ext_fp (ext_maze (the (new_Maze 8 6 (297 / 1000) (210 / 1000) (35 / 10000))))
        (ext_ball (1 / 100) (297 / 16000, 7 / 400) (0, 0))) \<and>
   fle ext_fp (radius (ext_ball (1 / 100) (297 / 16000, 7 / 400) (0, 0)))
     (fmaxH ext_fp (ext_maze (the (new_Maze 8 6 (297 / 1000) (210 / 1000) (35 / 10000))))
        (ext_ball (1 / 100) (297 / 16000, 7 / 400) (0, 0))) \<and>
   map_option (\<lambda>b'. not_nan ext_fp (fst (pos b')))
     (fsteps ext_fp (ext_maze (the (new_Maze 8 6 (297 / 1000) (210 / 1000) (35 / 10000))))
        [(fin (3 * 10 ^ 38), (fin (- push), fin 0)), (fin (3 * 10 ^ 38), (fin (- push), fin 0))]
        (ext_ball (1 / 100) (297 / 16000, 7 / 400) (0, 0))) = Some False"
  by (intro conjI) (simp_all add: ext_run)

text \<open>
  C1 (amended): for every floating-point arithmetic whose comparisons order the values that
  are not NaN and hold of no NaN, every maze and every ball whose radius is at most the
  bounds \<^verbatim>\<open>maxW = w * cellW - radius\<close> and \<^verbatim>\<open>maxH = h * cellH - radius\<close>
  as the code computes them (the ball is not wider than the maze), after every call of a finite sequence of calls of \<^verbatim>\<open>update\<close> that
  return, with any \<^verbatim>\<open>dt\<close> and any acceleration, each coordinate of the position
  lies between the radius and its bound, or is NaN.
\<close>

theorem ball_bounds:
  assumes "ordered A"
    and "fle A (radius b) (fmaxW A mz b)" and "fle A (radius b) (fmaxH A mz b)"
    and "ins \<noteq> []" and "fsteps A mz ins b = Some b'"
  shows "(not_nan A (fst (pos b')) \<longrightarrow> in_box A (radius b) (fmaxW A mz b) (fst (pos b'))) \<and>
         (not_nan A (snd (pos b')) \<longrightarrow> in_box A (radius b) (fmaxH A mz b) (snd (pos b')))"
proof -
  from fsteps_last[OF assms(5,4)] obtain b1 dt acc where
    s: "fstep A dt acc mz b1 = Some b'" and r: "radius b1 = radius b" by blast
  have m: "fmaxW A mz b1 = fmaxW A mz b" "fmaxH A mz b1 = fmaxH A mz b"
    by (simp_all add: fmaxW_def fmaxH_def r)
  from fstep_box[OF assms(1) s] assms(2,3) show ?thesis by (simp add: r m)
qed

theorem ball_bounds_witness:
  "ordered ext_fp \<and>
   fle ext_fp (radius (ext_ball (1 / 100) (297 / 16000, 7 / 400) (0, 0)))
     (fmaxW ext_fp (ext_maze (the (new_Maze 8 6 (297 / 1000) (210 / 1000) (35 / 10000))))
        (ext_ball (1 / 100) (297 / 16000, 7 / 400) (0, 0))) \<and>
   fle ext_fp (radius (ext_ball (1 / 100) (297 / 16000, 7 / 400) (0, 0)))
     (fmaxH ext_fp (ext_maze (the (new_Maze 8 6 (297 / 1000) (210 / 1000) (35 / 10000))))
        (ext_ball (1 / 100) (297 / 16000, 7 / 400) (0, 0))) \<and>
   [(fin (1 / 60), (fin (- push), fin 0)), (fin (1 / 20), (fin (- push), fin 0))] \<noteq> [] \<and>
   fsteps ext_fp (ext_maze (the (new_Maze 8 6 (297 / 1000) (210 / 1000) (35 / 10000))))
     [(fin (1 / 60), (fin (- push), fin 0)), (fin (1 / 20), (fin (- push), fin 0))]
     (ext_ball (1 / 100) (297 / 16000, 7 / 400) (0, 0))
     = Some (ext_ball (1 / 100) (1 / 100, 7 / 400) (1309 * push / 60000, 0)) \<and>
   not_nan ext_fp (fst (pos (ext_ball (1 / 100) (1 / 100, 7 / 400) (1309 * push / 60000, 0)))) \<and>
   in_box ext_fp (radius (ext_ball (1 / 100) (297 / 16000, 7 / 400) (0, 0)))
     (fmaxW ext_fp (ext_maze (the (new_Maze 8 6 (297 / 1000) (210 / 1000) (35 / 10000))))
        (ext_ball (1 / 100) (297 / 16000, 7 / 400) (0, 0)))
     (fst (pos (ext_ball (1 / 100) (1 / 100, 7 / 400) (1309 * push / 60000, 0)))) \<and>
   not_nan ext_fp (snd (pos (ext_ball (1 / 100) (1 / 100, 7 / 400) (1309 * push / 60000, 0)))) \<and>
   in_box ext_fp (radius (ext_ball (1 / 100) (297 / 16000, 7 / 400) (0, 0)))
     (fmaxH ext_fp (ext_maze (the (new_Maze 8 6 (297 / 1000) (210 / 1000) (35 / 10000))))
        (ext_ball (1 / 100) (297 / 16000, 7 / 400) (0, 0)))
     (snd (pos (ext_ball (1 / 100) (1 / 100, 7 / 400) (1309 * push / 60000, 0))))"
proof -
  let ?mz = "ext_maze (the (new_Maze 8 6 (297 / 1000) (210 / 1000) (35 / 10000)))"
  let ?b = "ext_ball (1 / 100) (297 / 16000, 7 / 400) (0, 0)"
  let ?b' = "ext_ball (1 / 100) (1 / 100, 7 / 400) (1309 * push / 60000, 0)"
  let ?ins = "[(fin (1 / 60), (fin (- push), fin 0)), (fin (1 / 20), (fin (- push), fin 0))]"
  have 1: "fle ext_fp (radius ?b) (fmaxW ext_fp ?mz ?b)" by (simp add: ext_run)
  have 2: "fle ext_fp (radius ?b) (fmaxH ext_fp ?mz ?b)" by (simp add: ext_run)
  have 3: "?ins \<noteq> []" by simp
  have 4: "fsteps ext_fp ?mz ?ins ?b = Some ?b'" by (simp add: ext_run)
  have 5: "not_nan ext_fp (fst (pos ?b'))" "not_nan ext_fp (snd (pos ?b'))"
    by (simp_all add: ext_run)
  from ball_bounds[OF ordered_ext 1 2 3 4] ordered_ext 1 2 3 4 5 show ?thesis by blast
qed

subsection \<open>The walls\<close>









end
